theory Spec2Isabelle
  imports Complex_Main
begin

section \<open>Text and regular expressions\<close>

text \<open>
  A JavaScript string is a sequence of UTF-16 code units; a code unit is modelled as a
  natural number. \<open>js\<close> turns an ASCII literal into such a sequence.
\<close>

type_synonym jsstring = "nat list"

definition js :: "string \<Rightarrow> jsstring" where
  "js s = map of_char s"

text \<open>
  The regular expressions of the program are values of \<open>rx\<close>. A character class is a list
  of inclusive code-unit ranges; \<open>Rep lo ex r\<close> is the greedy quantifier \<open>r{lo,lo+ex}\<close>
  and \<open>Star r\<close> the greedy \<open>r*\<close>.
\<close>

datatype rx =
    Cls "(nat \<times> nat) list"
  | Seq rx rx
  | Alt rx rx
  | Rep nat nat rx
  | Star rx
  | Eps

fun in_cls :: "(nat \<times> nat) list \<Rightarrow> nat \<Rightarrow> bool" where
  "in_cls [] c = False"
| "in_cls ((lo, hi) # rs) c = ((lo \<le> c \<and> c \<le> hi) \<or> in_cls rs c)"

fun rx_size :: "rx \<Rightarrow> nat" where
  "rx_size (Cls rs) = 1"
| "rx_size (Seq a b) = Suc (rx_size a + rx_size b)"
| "rx_size (Alt a b) = Suc (rx_size a + rx_size b)"
| "rx_size (Rep lo ex r) = Suc (rx_size r)"
| "rx_size (Star r) = Suc (rx_size r)"
| "rx_size Eps = 1"

fun rx_reps :: "rx \<Rightarrow> nat" where
  "rx_reps (Rep lo ex r) = lo + ex"
| "rx_reps r = 0"

text \<open>
  The backtracking matcher of ECMAScript, in continuation-passing style: \<open>bt r s k\<close>
  matches \<open>r\<close> at the head of \<open>s\<close> and hands the rest of the input to the continuation
  \<open>k\<close>; when the continuation fails, the next choice is tried. Alternatives are tried left
  to right, quantifiers are greedy, and an iteration of \<open>*\<close> that consumes nothing is
  rejected (the empty check of RepeatMatcher). The bounded quantifiers of the program all
  repeat an expression that consumes at least one character, so \<open>Rep\<close> needs no such check.
\<close>

function bt :: "rx \<Rightarrow> jsstring \<Rightarrow> (jsstring \<Rightarrow> 'a option) \<Rightarrow> 'a option" where
  "bt (Cls rs) s k = (case s of [] \<Rightarrow> None | c # cs \<Rightarrow> if in_cls rs c then k cs else None)"
| "bt (Seq a b) s k = bt a s (\<lambda>s'. bt b s' k)"
| "bt (Alt a b) s k = (case bt a s k of Some x \<Rightarrow> Some x | None \<Rightarrow> bt b s k)"
| "bt (Rep lo ex r) s k =
     (if 0 < lo then bt r s (\<lambda>s'. bt (Rep (lo - 1) ex r) s' k)
      else if 0 < ex then
        (case bt r s (\<lambda>s'. bt (Rep 0 (ex - 1) r) s' k) of Some x \<Rightarrow> Some x | None \<Rightarrow> k s)
      else k s)"
| "bt (Star r) s k =
     (case bt r s (\<lambda>s'. if length s' < length s then bt (Star r) s' k else None) of
        Some x \<Rightarrow> Some x
      | None \<Rightarrow> k s)"
| "bt Eps s k = k s"
  by pat_completeness auto
termination
  by (relation "measures [\<lambda>(r, s, k). rx_size r, \<lambda>(r, s, k). rx_reps r, \<lambda>(r, s, k). length s]")
     auto

declare bt.simps [simp del]

text \<open>
  \<open>String.prototype.match\<close> without the global flag: the leftmost position at which the
  anchored matcher succeeds.
\<close>

fun search :: "(jsstring \<Rightarrow> 'a option) \<Rightarrow> jsstring \<Rightarrow> 'a option" where
  "search m [] = m []"
| "search m (c # cs) = (case m (c # cs) of Some x \<Rightarrow> Some x | None \<Rightarrow> search m cs)"

subsection \<open>Character classes and literals\<close>

definition DIGIT :: rx where
  \<comment> \<open>\<open>\d\<close>\<close>
  "DIGIT = Cls [(48, 57)]"

definition ws_ranges :: "(nat \<times> nat) list" where
  \<comment> \<open>WhiteSpace and LineTerminator of ECMAScript\<close>
  "ws_ranges = [(9, 13), (32, 32), (160, 160), (5760, 5760), (8192, 8202), (8232, 8233),
                (8239, 8239), (8287, 8287), (12288, 12288), (65279, 65279)]"

definition WS :: rx where
  \<comment> \<open>\<open>\s\<close>\<close>
  "WS = Cls ws_ranges"

definition HEX :: rx where
  \<comment> \<open>\<open>[0-9a-fA-F]\<close>\<close>
  "HEX = Cls [(48, 57), (97, 102), (65, 70)]"

definition DOT :: rx where
  "DOT = Cls [(46, 46)]"

definition COLON :: rx where
  "COLON = Cls [(58, 58)]"

definition chr_i :: "nat \<Rightarrow> rx" where
  \<comment> \<open>one code unit under the \<open>i\<close> flag: an ASCII letter matches both of its cases\<close>
  "chr_i c = (if 97 \<le> c \<and> c \<le> 122 then Cls [(c, c), (c - 32, c - 32)]
              else if 65 \<le> c \<and> c \<le> 90 then Cls [(c, c), (c + 32, c + 32)]
              else Cls [(c, c)])"

fun lit_i :: "jsstring \<Rightarrow> rx" where
  "lit_i [] = Eps"
| "lit_i (c # cs) = Seq (chr_i c) (lit_i cs)"

definition PLUS :: "rx \<Rightarrow> rx" where
  \<comment> \<open>\<open>r+\<close>\<close>
  "PLUS r = Seq r (Star r)"

definition OPT :: "rx \<Rightarrow> rx" where
  \<comment> \<open>\<open>r?\<close>\<close>
  "OPT r = Rep 0 1 r"

definition matched :: "jsstring \<Rightarrow> jsstring \<Rightarrow> jsstring" where
  \<comment> \<open>the text consumed between the input \<open>s\<close> and the rest \<open>s'\<close> of it\<close>
  "matched s s' = take (length s - length s') s"

section \<open>The direct probe: executePing\<close>

text \<open>
  What a spawned \<open>ping\<close> process can do: fail to start (the \<open>error\<close> event), or close
  with an exit code after writing its standard output.
\<close>

datatype proc_outcome = SpawnError | Closed int jsstring

record ping_result =
  alive :: bool
  time :: "real option"

text \<open>
  \<open>/([<>=]|\s)(\d+(?:\.\d+)?)\s*ms/i\<close>: the result is the text of group 2 at the
  leftmost match.
\<close>

definition TIME_DELIM :: rx where
  "TIME_DELIM = Alt (Cls [(60, 60), (62, 62), (61, 61)]) WS"

definition TIME_NUM :: rx where
  "TIME_NUM = Seq (PLUS DIGIT) (OPT (Seq DOT (PLUS DIGIT)))"

definition TIME_TAIL :: rx where
  "TIME_TAIL = Seq (Star WS) (lit_i (js ''ms''))"

definition timeMatch_at :: "jsstring \<Rightarrow> jsstring option" where
  "timeMatch_at s =
     bt TIME_DELIM s (\<lambda>s1. bt TIME_NUM s1 (\<lambda>s2. bt TIME_TAIL s2 (\<lambda>s3. Some (matched s1 s2))))"

definition timeMatch :: "jsstring \<Rightarrow> jsstring option" where
  "timeMatch output = search timeMatch_at output"

text \<open>
  \<open>parseFloat\<close> on the texts group 2 can hold: decimal digits, optionally a dot and more
  digits. Numbers are exact reals here; the rounding of IEEE doubles is not modelled.
\<close>

definition dec_value :: "jsstring \<Rightarrow> nat" where
  "dec_value ds = foldl (\<lambda>a c. 10 * a + (c - 48)) 0 ds"

definition is_digit :: "nat \<Rightarrow> bool" where
  "is_digit c = (48 \<le> c \<and> c \<le> 57)"

definition parseFloat :: "jsstring \<Rightarrow> real" where
  "parseFloat g =
     (let ds = takeWhile is_digit g; rest = dropWhile is_digit g
      in case rest of
           [] \<Rightarrow> real (dec_value ds)
         | d # fs \<Rightarrow> real (dec_value ds) + real (dec_value fs) / 10 ^ length fs)"

definition executePing :: "proc_outcome \<Rightarrow> ping_result" where
  "executePing p =
     (case p of
        SpawnError \<Rightarrow> \<lparr>alive = False, time = None\<rparr>
      | Closed code output \<Rightarrow>
          (case timeMatch output of
             Some g \<Rightarrow> \<lparr>alive = True, time = Some (parseFloat g)\<rparr>
           | None \<Rightarrow> \<lparr>alive = False, time = None\<rparr>))"

section \<open>The cycle statistics: runMtrCycles\<close>

text \<open>
  A hop object as \<open>runMtrCycles\<close> receives it. A field that the object does not have
  (\<open>undefined\<close>) is \<open>None\<close>.
\<close>

record hop_rec =
  hop :: nat
  ip :: "jsstring option"
  host :: "jsstring option"
  reached :: "bool option"
  rtt1 :: "jsstring option"

text \<open>
  The statistics object spreads the hop (\<open>...hop\<close>) and adds the counters. \<open>best\<close> starts
  at \<open>Infinity\<close>, which is \<open>None\<close> here.
\<close>

record hop_stat = hop_rec +
  sent :: nat
  received :: nat
  rtts :: "real list"
  best :: "real option"
  worst :: real
  sumv :: real
  avg :: real
  loss :: real
  stdev :: real
  isDead :: bool

record snapshot_row =
  row_hop :: nat
  row_ip :: "jsstring option"
  row_loss :: real
  row_avg :: real
  row_best :: real
  row_worst :: real
  row_stdev :: real
  row_sent :: nat

record progress =
  ev_type :: string
  ev_cycle :: int
  ev_totalCycles :: int
  ev_hops :: "snapshot_row list"

record final_row =
  fin_host :: "jsstring option"
  fin_ip :: "jsstring option"
  fin_loss :: real
  fin_avg :: real
  fin_best :: real
  fin_worst :: real
  fin_stdev :: real

text \<open>
  What the function does to the outside, in order: it spawns a ping (cycle, position of the
  hop, address), calls the progress callback, or sleeps between two cycles.
\<close>

datatype effect = Spawn int nat "jsstring option" | Progress progress | Sleep nat

definition falsy :: "jsstring option \<Rightarrow> bool" where
  \<comment> \<open>\<open>!x\<close> on a string or \<open>undefined\<close>\<close>
  "falsy x = (case x of None \<Rightarrow> True | Some t \<Rightarrow> t = [])"

definition initStat :: "hop_rec \<Rightarrow> hop_stat" where
  "initStat h = hop_rec.extend h
     (hop_stat.fields 0 0 [] None 0 0 0 0 0 (falsy (ip h) \<or> ip h = Some (js ''*'')))"

definition calculateStDev :: "real list \<Rightarrow> real \<Rightarrow> real" where
  "calculateStDev rs a =
     (if length rs < 2 then 0
      else let squareDiffs = map (\<lambda>rtt. (rtt - a) ^ 2) rs;
               avgSquareDiff = foldl (\<lambda>a b. a + b) 0 squareDiffs / real (length rs)
           in sqrt avgSquareDiff)"

definition below_best :: "real \<Rightarrow> real option \<Rightarrow> bool" where
  \<comment> \<open>\<open>time < stat.best\<close>, where \<open>None\<close> is \<open>Infinity\<close>\<close>
  "below_best t b = (case b of None \<Rightarrow> True | Some v \<Rightarrow> t < v)"

definition record_reply :: "ping_result \<Rightarrow> hop_stat \<Rightarrow> hop_stat" where
  \<comment> \<open>the body of \<open>try\<close> after the ping has resolved; a time that is \<open>null\<close> is \<open>None\<close>, and
      a real number is never \<open>NaN\<close>. \<open>executePing\<close> always resolves, so \<open>catch\<close> has nothing
      to catch.\<close>
  "record_reply res stat =
     (if alive res then
        (let s1 = stat\<lparr>received := received stat + 1\<rparr>
         in case time res of
              None \<Rightarrow> s1
            | Some t \<Rightarrow>
                (let s2 = s1\<lparr>rtts := rtts s1 @ [t], sumv := sumv s1 + t\<rparr>;
                     s3 = (if below_best t (best s2) then s2\<lparr>best := Some t\<rparr> else s2)
                 in if worst s3 < t then s3\<lparr>worst := t\<rparr> else s3))
      else stat)"

definition recalc :: "hop_stat \<Rightarrow> hop_stat" where
  \<comment> \<open>Recalculate Derived Stats\<close>
  "recalc stat =
     (if 0 < received stat then
        (let s1 = stat\<lparr>avg := sumv stat / real (received stat)\<rparr>;
             s2 = s1\<lparr>stdev := calculateStDev (rtts s1) (avg s1)\<rparr>
         in s2\<lparr>loss := ((real (sent s2) - real (received s2)) / real (sent s2)) * 100\<rparr>)
      else stat\<lparr>loss := 100\<rparr>)"

definition probe_stat :: "proc_outcome \<Rightarrow> hop_stat \<Rightarrow> hop_stat" where
  \<comment> \<open>one task of a cycle: the callback of \<open>hopStats.map\<close>\<close>
  "probe_stat p stat =
     (if isDead stat then stat\<lparr>sent := sent stat + 1, loss := 100\<rparr>
      else recalc (record_reply (executePing p) (stat\<lparr>sent := sent stat + 1\<rparr>)))"

definition toFixed1 :: "real \<Rightarrow> real" where
  \<comment> \<open>\<open>parseFloat(x.toFixed(1))\<close>: the nearest multiple of 0.1, a tie going away from zero\<close>
  "toFixed1 x = (if x < 0 then - (of_int \<lfloor>10 * (- x) + 1 / 2\<rfloor> / 10)
                 else of_int \<lfloor>10 * x + 1 / 2\<rfloor> / 10)"

definition shown_best :: "real option \<Rightarrow> real" where
  \<comment> \<open>\<open>stat.best === Infinity ? 0 : parseFloat(stat.best.toFixed(1))\<close>\<close>
  "shown_best b = (case b of None \<Rightarrow> 0 | Some v \<Rightarrow> toFixed1 v)"

definition snapshot_of :: "hop_stat \<Rightarrow> snapshot_row" where
  "snapshot_of stat =
     \<lparr>row_hop = hop stat, row_ip = ip stat, row_loss = toFixed1 (loss stat),
      row_avg = toFixed1 (avg stat), row_best = shown_best (best stat),
      row_worst = toFixed1 (worst stat), row_stdev = toFixed1 (stdev stat),
      row_sent = sent stat\<rparr>"

definition truthy_or :: "jsstring option \<Rightarrow> jsstring option \<Rightarrow> jsstring option" where
  \<comment> \<open>\<open>a || b\<close>\<close>
  "truthy_or a b = (if falsy a then b else a)"

definition final_of :: "hop_stat \<Rightarrow> final_row" where
  "final_of stat =
     \<lparr>fin_host = truthy_or (host stat) (ip stat), fin_ip = ip stat,
      fin_loss = toFixed1 (loss stat), fin_avg = toFixed1 (avg stat),
      fin_best = shown_best (best stat), fin_worst = toFixed1 (worst stat),
      fin_stdev = toFixed1 (stdev stat)\<rparr>"

text \<open>
  The network is a parameter: \<open>net cycle i\<close> is what the ping spawned in that cycle for the
  hop at position \<open>i\<close> does. The tasks of a cycle each own one statistics object, so the
  order in which they finish does not show.
\<close>

type_synonym network = "int \<Rightarrow> nat \<Rightarrow> proc_outcome"

definition run_cycle :: "network \<Rightarrow> int \<Rightarrow> hop_stat list \<Rightarrow> hop_stat list" where
  "run_cycle net cycle hopStats =
     map (\<lambda>(i, stat). probe_stat (net cycle i) stat) (enumerate 0 hopStats)"

definition spawned :: "int \<Rightarrow> hop_stat list \<Rightarrow> effect list" where
  "spawned cycle hopStats =
     concat (map (\<lambda>(i, stat). if isDead stat then [] else [Spawn cycle i (ip stat)])
                 (enumerate 0 hopStats))"

record mtr_state =
  hopStats :: "hop_stat list"
  trace :: "effect list"

function cycle_loop ::
  "network \<Rightarrow> bool \<Rightarrow> nat \<Rightarrow> int \<Rightarrow> int \<Rightarrow> mtr_state \<Rightarrow> mtr_state" where
  "cycle_loop net hasCallback interval cycles cycle st =
     (if cycle \<le> cycles then
        (let stats' = run_cycle net cycle (hopStats st);
             t1 = trace st @ spawned cycle (hopStats st);
             t2 = (if hasCallback then
                     t1 @ [Progress \<lparr>ev_type = ''cycle_update'', ev_cycle = cycle,
                                     ev_totalCycles = cycles,
                                     ev_hops = map snapshot_of stats'\<rparr>]
                   else t1);
             t3 = (if cycle < cycles then t2 @ [Sleep interval] else t2)
         in cycle_loop net hasCallback interval cycles (cycle + 1)
              \<lparr>hopStats = stats', trace = t3\<rparr>)
      else st)"
  by pat_completeness auto
termination
  by (relation "measure (\<lambda>(net, cb, interval, cycles, cycle, st). nat (cycles + 1 - cycle))") auto

declare cycle_loop.simps [simp del]

definition runMtrCycles ::
  "network \<Rightarrow> hop_rec list \<Rightarrow> int \<Rightarrow> bool \<Rightarrow> nat \<Rightarrow> final_row list \<times> effect list" where
  "runMtrCycles net hops cycles hasCallback interval =
     (let st = cycle_loop net hasCallback interval cycles 1
                 \<lparr>hopStats = map initStat hops, trace = []\<rparr>
      in (map final_of (hopStats st), trace st))"

section \<open>Hop discovery: runTraceroute\<close>

text \<open>\<open>output.split(/\r?\n/)\<close>: a line ends at a line feed, with the carriage return before it.\<close>

fun split_lines :: "jsstring \<Rightarrow> jsstring list" where
  "split_lines [] = [[]]"
| "split_lines [c] = (if c = 10 then [[], []] else [[c]])"
| "split_lines (c # d # ds) =
     (if c = 10 then [] # split_lines (d # ds)
      else if c = 13 \<and> d = 10 then [] # split_lines ds
      else (case split_lines (d # ds) of l # ls \<Rightarrow> (c # l) # ls | [] \<Rightarrow> [[c]]))"

definition IPV6 :: rx where
  \<comment> \<open>\<open>(?:[0-9a-fA-F]{0,4}:){2,7}[0-9a-fA-F]{0,4}\<close>\<close>
  "IPV6 = Seq (Rep 2 5 (Seq (Rep 0 4 HEX) COLON)) (Rep 0 4 HEX)"

definition IPV4 :: rx where
  \<comment> \<open>\<open>\d{1,3}\.\d{1,3}\.\d{1,3}\.\d{1,3}\<close>\<close>
  "IPV4 = Seq (Rep 1 2 DIGIT) (Seq DOT (Seq (Rep 1 2 DIGIT) (Seq DOT
            (Seq (Rep 1 2 DIGIT) (Seq DOT (Rep 1 2 DIGIT))))))"

definition ipMatch :: "jsstring \<Rightarrow> jsstring option" where
  "ipMatch line = search (\<lambda>s. bt (Alt IPV6 IPV4) s (\<lambda>s'. Some (matched s s'))) line"

definition strip_colon :: "jsstring \<Rightarrow> jsstring" where
  \<comment> \<open>\<open>foundIp.replace(/:$/, '')\<close>\<close>
  "strip_colon a = (if a \<noteq> [] \<and> last a = 58 then butlast a else a)"

definition foundIp :: "jsstring \<Rightarrow> jsstring option" where
  \<comment> \<open>the address a line yields, if any: the match, the sanity check, the cleanup\<close>
  "foundIp line =
     (case ipMatch line of
        None \<Rightarrow> None
      | Some m \<Rightarrow> if length m < 2 then None else Some (strip_colon m))"

definition HAS_TIME :: rx where
  \<comment> \<open>\<open>/(?:time|ms|...|zeit)[=<]?\s*\d+/i\<close>, the two Chinese spellings of "time" as
      code units\<close>
  "HAS_TIME =
     Seq (Alt (lit_i (js ''time'')) (Alt (lit_i (js ''ms'')) (Alt (lit_i [26102, 38388])
            (Alt (lit_i [26178, 38291]) (lit_i (js ''zeit''))))))
         (Seq (OPT (Cls [(61, 61), (60, 60)])) (Seq (Star WS) (PLUS DIGIT)))"

definition HAS_BYTES :: rx where
  \<comment> \<open>\<open>/(?:bytes|seq|icmp_seq)[=<]\d+/i\<close>\<close>
  "HAS_BYTES =
     Seq (Alt (lit_i (js ''bytes'')) (Alt (lit_i (js ''seq'')) (lit_i (js ''icmp_seq''))))
         (Seq (Cls [(61, 61), (60, 60)]) (PLUS DIGIT))"

definition found :: "rx \<Rightarrow> jsstring \<Rightarrow> bool" where
  \<comment> \<open>whether \<open>line.match(r)\<close> is not \<open>null\<close>\<close>
  "found r line = (search (\<lambda>s. bt r s (\<lambda>s'. Some ())) line \<noteq> None)"

definition hasTime :: "jsstring \<Rightarrow> bool" where
  "hasTime line = found HAS_TIME line"

definition hasBytes :: "jsstring \<Rightarrow> bool" where
  "hasBytes line = found HAS_BYTES line"

text \<open>The loop over the lines: the pair is \<open>(discoveredIp, reachedDest)\<close> when it ends.\<close>

fun scan_lines :: "jsstring \<Rightarrow> jsstring list \<Rightarrow> jsstring \<times> bool" where
  "scan_lines targetIP [] = (js ''*'', False)"
| "scan_lines targetIP (line # rest) =
     (case foundIp line of
        None \<Rightarrow> scan_lines targetIP rest
      | Some a \<Rightarrow>
          if a \<noteq> targetIP then (a, False)
          else if hasTime line \<or> hasBytes line then (targetIP, True)
          else scan_lines targetIP rest)"

definition probeHop :: "nat \<Rightarrow> jsstring \<Rightarrow> proc_outcome \<Rightarrow> hop_rec" where
  "probeHop ttl targetIP p =
     (case p of
        SpawnError \<Rightarrow>
          \<lparr>hop = ttl, ip = Some (js ''*''), host = None, reached = Some False, rtt1 = None\<rparr>
      | Closed code output \<Rightarrow>
          (case scan_lines targetIP (split_lines output) of
             (discoveredIp, reachedDest) \<Rightarrow>
               \<lparr>hop = ttl, ip = Some discoveredIp, host = None, reached = Some reachedDest,
                rtt1 = None\<rparr>))"

text \<open>
  The properties of a hop object, by name, as JavaScript reads them: a name the object does
  not have gives \<open>None\<close> (\<open>undefined\<close>).
\<close>

datatype jsval = JNum real | JStr jsstring | JBool bool

definition hop_property :: "hop_rec \<Rightarrow> string \<Rightarrow> jsval option" where
  "hop_property h name =
     (if name = ''hop'' then Some (JNum (real (hop h)))
      else if name = ''ip'' then map_option JStr (ip h)
      else if name = ''host'' then map_option JStr (host h)
      else if name = ''reached'' then map_option JBool (reached h)
      else if name = ''rtt1'' then map_option JStr (rtt1 h)
      else None)"

definition MAX_HOPS :: nat where
  "MAX_HOPS = 30"

definition BATCH_SIZE :: nat where
  "BATCH_SIZE = 10"

text \<open>The route is a parameter: \<open>route ttl\<close> is what the ping sent with that TTL does.\<close>

type_synonym route = "nat \<Rightarrow> proc_outcome"

fun collect :: "jsstring \<Rightarrow> hop_rec list \<Rightarrow> hop_rec list \<times> bool \<Rightarrow> hop_rec list \<times> bool" where
  \<comment> \<open>\<open>for (const res of results)\<close>: the pair is \<open>(hops, targetReached)\<close>\<close>
  "collect targetIP [] acc = acc"
| "collect targetIP (res # results) (hops, targetReached) =
     collect targetIP results
       (if ip res \<noteq> Some (js ''*'') then hops @ [res] else hops,
        targetReached \<or> reached res = Some True \<or> ip res = Some targetIP)"

function batch_loop ::
  "jsstring \<Rightarrow> route \<Rightarrow> nat \<Rightarrow> hop_rec list \<times> bool \<Rightarrow> hop_rec list \<times> bool" where
  "batch_loop targetIP route i acc =
     (if i \<le> MAX_HOPS then
        (if snd acc then acc
         else
           (let endTtl = min (i + BATCH_SIZE - 1) MAX_HOPS;
                results = map (\<lambda>ttl. probeHop ttl targetIP (route ttl)) [i..<Suc endTtl]
            in batch_loop targetIP route (i + BATCH_SIZE) (collect targetIP results acc)))
      else acc)"
  by pat_completeness auto
termination
  by (relation "measure (\<lambda>(targetIP, route, i, acc). Suc MAX_HOPS - i)")
     (auto simp add: BATCH_SIZE_def MAX_HOPS_def)

declare batch_loop.simps [simp del]

fun truncate_at :: "jsstring \<Rightarrow> hop_rec list \<Rightarrow> hop_rec list" where
  \<comment> \<open>stop after the first occurrence of the target\<close>
  "truncate_at targetIP [] = []"
| "truncate_at targetIP (h # hs) =
     h # (if ip h = Some targetIP then [] else truncate_at targetIP hs)"

definition runTraceroute :: "jsstring \<Rightarrow> route \<Rightarrow> hop_rec list" where
  "runTraceroute targetIP route =
     truncate_at targetIP (sort_key hop (fst (batch_loop targetIP route 1 ([], False))))"

section \<open>The run of one target: NetworkDiagnosisTool.run\<close>

definition append_target :: "hop_rec list \<Rightarrow> jsstring \<Rightarrow> hop_rec list" where
  \<comment> \<open>Force Target Append Logic; \<open>lastHop\<close> is \<open>undefined\<close> on the empty list\<close>
  "append_target hops targetIP =
     (let lastHop = (if hops = [] then None else Some (last hops))
      in if (case lastHop of None \<Rightarrow> True | Some l \<Rightarrow> ip l \<noteq> Some targetIP)
         then hops @ [\<lparr>hop = (case lastHop of Some l \<Rightarrow> hop l | None \<Rightarrow> 0) + 1,
                        ip = Some targetIP, host = None, reached = None,
                        rtt1 = Some (js ''0 ms'')\<rparr>]
         else hops)"

definition mtr_phase ::
  "jsstring \<Rightarrow> route \<Rightarrow> network \<Rightarrow> int \<Rightarrow> final_row list \<times> effect list" where
  \<comment> \<open>step 2b of \<open>run\<close>: discovery, the repair of the list, the cycles\<close>
  "mtr_phase targetIP route net mtrDuration =
     runMtrCycles net (append_target (runTraceroute targetIP route) targetIP) mtrDuration True 1000"

section \<open>Notions of the specification, observations and sample inputs\<close>

text \<open>
  The statistics of one hop, followed on its own: \<open>stat_steps net i cs s\<close> is what the
  cycles \<open>cs\<close> make of the statistics \<open>s\<close> of the hop at position \<open>i\<close>, and
  \<open>stats_run\<close> does this for every hop of a list. The loop computes exactly this
  (\<open>cycle_loop_hopStats\<close> below).
\<close>

definition stat_steps :: "network \<Rightarrow> nat \<Rightarrow> int list \<Rightarrow> hop_stat \<Rightarrow> hop_stat" where
  "stat_steps net i cs s = foldl (\<lambda>s cy. probe_stat (net cy i) s) s cs"

definition stats_run :: "network \<Rightarrow> int \<Rightarrow> int \<Rightarrow> hop_stat list \<Rightarrow> hop_stat list" where
  "stats_run net c n stats = map (\<lambda>(i, s). stat_steps net i [c..n] s) (enumerate 0 stats)"



definition samples :: "network \<Rightarrow> nat \<Rightarrow> int \<Rightarrow> real list" where
  "samples net i C = List.map_filter (\<lambda>c. time (executePing (net c i))) [1..C]"

text \<open>What holds of the statistics of a dead slot after any number of cycles.\<close>

definition dead_inv :: "hop_stat \<Rightarrow> bool" where
  "dead_inv s \<longleftrightarrow> isDead s \<and> received s = 0 \<and> rtts s = [] \<and> best s = None \<and> worst s = 0
     \<and> sumv s = 0 \<and> avg s = 0 \<and> stdev s = 0"



text \<open>The snapshots handed to the progress callback, in the order of the calls.\<close>

fun progress_events :: "effect list \<Rightarrow> progress list" where
  "progress_events [] = []"
| "progress_events (Progress e # t) = e # progress_events t"
| "progress_events (x # t) = progress_events t"

text \<open>The statistics objects once the cycles \<open>1, \<dots>, n\<close> have completed.\<close>

definition stats_after :: "network \<Rightarrow> hop_rec list \<Rightarrow> int \<Rightarrow> hop_stat list" where
  "stats_after net hops n =
     hopStats (cycle_loop net False 0 n 1 \<lparr>hopStats = map initStat hops, trace = []\<rparr>)"

text \<open>
  Sample inputs. \<open>net_of_lines\<close> makes a network of a table of ping outputs, one row for
  each cycle and one entry for each hop; outside the table no ping starts.
\<close>

definition net_of_lines :: "string list list \<Rightarrow> network" where
  "net_of_lines tbl c i =
     (if 1 \<le> c \<and> nat c \<le> length tbl \<and> i < length (tbl ! (nat c - 1))
      then Closed 0 (js (tbl ! (nat c - 1) ! i)) else SpawnError)"

definition live_hop :: "nat \<Rightarrow> string \<Rightarrow> hop_rec" where
  "live_hop n a = \<lparr>hop = n, ip = Some (js a), host = None, reached = Some False, rtt1 = None\<rparr>"

definition dead_hop :: "nat \<Rightarrow> hop_rec" where
  "dead_hop n = \<lparr>hop = n, ip = Some (js ''*''), host = None, reached = Some False, rtt1 = None\<rparr>"

definition net_scenario :: network where
  "net_scenario = net_of_lines [[''time=10 ms'', ''time=10 ms''], [''time=12 ms'', ''time=14 ms'']]"

definition hops_scenario :: "hop_rec list" where
  "hops_scenario = [live_hop 1 ''10.0.0.1'', live_hop 2 ''10.0.0.2'']"

definition net_thirds :: network where
  "net_thirds = net_of_lines [[''time=1 ms''], [''time=2 ms''], [''time=2 ms'']]"


text \<open>What every hop collected so far satisfies, before the batch that starts at \<open>i\<close>.\<close>

definition collected :: "jsstring \<Rightarrow> route \<Rightarrow> nat \<Rightarrow> hop_rec list \<Rightarrow> bool" where
  "collected targetIP route i hops \<longleftrightarrow>
     sorted_wrt (<) (map hop hops)
     \<and> list_all (\<lambda>h. hop h < i \<and> ip h \<noteq> Some (js ''*'')
                     \<and> probeHop (hop h) targetIP (route (hop h)) = h) hops"

text \<open>
  A sample route: a router answers the probe with TTL 1, the ping with TTL 2 does not start,
  and every probe from TTL 3 on reaches the destination 8.8.8.8.
\<close>

definition route_demo :: route where
  "route_demo ttl =
     (if ttl = 1 then Closed 1 (js ''From 10.0.0.1 icmp_seq=1 Time to live exceeded'')
      else if ttl = 2 then SpawnError
      else Closed 0 (js ''64 bytes from 8.8.8.8: icmp_seq=1 ttl=117 time=23ms''))"

text \<open>The language of a regular expression: the texts the matcher can consume.\<close>

fun lang :: "rx \<Rightarrow> jsstring set" where
  "lang (Cls rs) = {[c] | c. in_cls rs c}"
| "lang (Seq a b) = {p @ q | p q. p \<in> lang a \<and> q \<in> lang b}"
| "lang (Alt a b) = lang a \<union> lang b"
| "lang (Rep lo ex r) =
     {concat ps | ps. set ps \<subseteq> lang r \<and> lo \<le> length ps \<and> length ps \<le> lo + ex}"
| "lang (Star r) = {concat ps | ps. set ps \<subseteq> lang r \<and> [] \<notin> set ps}"
| "lang Eps = {[]}"

text \<open>
  The place the regular expression of \<open>executePing\<close> looks for, spelled out: a delimiter
  \<open>d\<close>, the text \<open>g\<close> of a decimal number, white space \<open>ws\<close>, and the two letters.
\<close>

definition is_ws :: "nat \<Rightarrow> bool" where
  "is_ws c = in_cls ws_ranges c"

definition is_delim :: "nat \<Rightarrow> bool" where
  "is_delim c \<longleftrightarrow> c = 60 \<or> c = 62 \<or> c = 61 \<or> is_ws c"

definition digits :: "jsstring \<Rightarrow> bool" where
  "digits ds \<longleftrightarrow> ds \<noteq> [] \<and> list_all is_digit ds"

definition is_number :: "jsstring \<Rightarrow> bool" where
  "is_number g =
     (let ds = takeWhile is_digit g; rest = dropWhile is_digit g
      in ds \<noteq> [] \<and> (rest = [] \<or> (hd rest = 46 \<and> digits (tl rest))))"

definition ms_shape :: "nat \<Rightarrow> jsstring \<Rightarrow> jsstring \<Rightarrow> nat \<Rightarrow> nat \<Rightarrow> bool" where
  "ms_shape d g ws m s \<longleftrightarrow>
     is_delim d \<and> is_number g \<and> list_all is_ws ws \<and> (m = 109 \<or> m = 77) \<and> (s = 115 \<or> s = 83)"

text \<open>
  The claim's own words, for comparison: "the raw text output contains a millisecond value
  anywhere", a millisecond value being a decimal number, optional white space and \<open>ms\<close>.
\<close>

definition spec_contains_ms_value :: "jsstring \<Rightarrow> bool" where
  "spec_contains_ms_value output = found (Seq TIME_NUM TIME_TAIL) output"

text \<open>Sample outputs of the TTL probe.\<close>

definition ping_reply_output :: jsstring where
  "ping_reply_output =
     js ''PING 8.8.8.8 (8.8.8.8) 56(84) bytes of data.'' @ 10 #
     js ''64 bytes from 8.8.8.8: icmp_seq=1 ttl=117 time=23ms''"

section \<open>Lemmas and theorems\<close>

lemma stats_run_done: "n < c \<Longrightarrow> stats_run net c n stats = stats"
  by (simp add: stats_run_def stat_steps_def map_idI enumerate_eq_zip map_snd_zip  split_def)

lemma nth_run_cycle:
  "i < length stats \<Longrightarrow> run_cycle net c stats ! i = probe_stat (net c i) (stats ! i)"
  by (simp add: run_cycle_def nth_enumerate_eq)

lemma length_run_cycle: "length (run_cycle net c stats) = length stats"
  by (simp add: run_cycle_def)

lemma length_stats_run: "length (stats_run net c n stats) = length stats"
  by (simp add: stats_run_def)

lemma nth_stats_run:
  "i < length stats \<Longrightarrow> stats_run net c n stats ! i = stat_steps net i [c..n] (stats ! i)"
  by (simp add: stats_run_def nth_enumerate_eq)

lemma stats_run_step:
  assumes "c \<le> n"
  shows "stats_run net c n stats = stats_run net (c + 1) n (run_cycle net c stats)"
proof (rule nth_equalityI)
  show "length (stats_run net c n stats) = length (stats_run net (c + 1) n (run_cycle net c stats))"
    by (simp add: length_stats_run length_run_cycle)
next
  fix i assume "i < length (stats_run net c n stats)"
  then have i: "i < length stats" by (simp add: length_stats_run)
  have "[c..n] = c # [c + 1..n]" using assms by (simp add: upto_rec1)
  then show "stats_run net c n stats ! i = stats_run net (c + 1) n (run_cycle net c stats) ! i"
    using i by (simp add: nth_stats_run length_run_cycle nth_run_cycle stat_steps_def)
qed

lemma cycle_loop_hopStats:
  "hopStats (cycle_loop net cb iv C c st) = stats_run net c C (hopStats st)"
proof (induction net cb iv C c st rule: cycle_loop.induct)
  case (1 net cb iv C c st)
  show ?case
  proof (cases "c \<le> C")
    case True
    then show ?thesis
      using 1 by (subst cycle_loop.simps) (simp add: Let_def stats_run_step)
  next
    case False
    then show ?thesis
      by (subst cycle_loop.simps) (simp add: stats_run_done)
  qed
qed




lemma isDead_probe_stat [simp]: "isDead (probe_stat p s) = isDead s"
  by (simp add: probe_stat_def recalc_def record_reply_def Let_def split: option.splits)

lemma sent_probe_stat [simp]: "sent (probe_stat p s) = sent s + 1"
  by (simp add: probe_stat_def recalc_def record_reply_def Let_def split: option.splits)

lemma ip_probe_stat [simp]: "ip (probe_stat p s) = ip s"
  by (simp add: probe_stat_def recalc_def record_reply_def Let_def split: option.splits)

lemma hop_probe_stat [simp]: "hop (probe_stat p s) = hop s"
  by (simp add: probe_stat_def recalc_def record_reply_def Let_def split: option.splits)

lemma host_probe_stat [simp]: "host (probe_stat p s) = host s"
  by (simp add: probe_stat_def recalc_def record_reply_def Let_def split: option.splits)

lemma isDead_stat_steps [simp]: "isDead (stat_steps net i cs s) = isDead s"
  by (induction cs arbitrary: s) (simp_all add: stat_steps_def)

lemma sent_stat_steps [simp]: "sent (stat_steps net i cs s) = sent s + length cs"
  by (induction cs arbitrary: s) (simp_all add: stat_steps_def)

lemma ip_stat_steps [simp]: "ip (stat_steps net i cs s) = ip s"
  by (induction cs arbitrary: s) (simp_all add: stat_steps_def)

lemma hop_stat_steps [simp]: "hop (stat_steps net i cs s) = hop s"
  by (induction cs arbitrary: s) (simp_all add: stat_steps_def)

lemma host_stat_steps [simp]: "host (stat_steps net i cs s) = host s"
  by (induction cs arbitrary: s) (simp_all add: stat_steps_def)

lemma stat_steps_snoc:
  "stat_steps net i (cs @ [c]) s = probe_stat (net c i) (stat_steps net i cs s)"
  by (simp add: stat_steps_def)

lemma dead_inv_probe_stat: "dead_inv s \<Longrightarrow> dead_inv (probe_stat p s) \<and> loss (probe_stat p s) = 100"
  by (simp add: dead_inv_def probe_stat_def)

lemma dead_inv_stat_steps: "dead_inv s \<Longrightarrow> dead_inv (stat_steps net i cs s)"
  by (induction cs rule: rev_induct) (simp_all add: stat_steps_snoc dead_inv_probe_stat stat_steps_def)

lemma dead_loss_stat_steps:
  "dead_inv s \<Longrightarrow> cs \<noteq> [] \<Longrightarrow> loss (stat_steps net i cs s) = 100"
  by (cases cs rule: rev_cases) (simp_all add: stat_steps_snoc dead_inv_probe_stat dead_inv_stat_steps)









lemma progress_events_append [simp]:
  "progress_events (xs @ ys) = progress_events xs @ progress_events ys"
  by (induction xs rule: progress_events.induct) simp_all

lemma progress_events_spawned [simp]: "progress_events (spawned c stats) = []"
proof -
  have "progress_events (concat (map (\<lambda>(i, stat). if isDead stat then [] else [Spawn c i (ip stat)]) xs)) = []"
    for xs :: "(nat \<times> hop_stat) list"
    by (induction xs) auto
  then show ?thesis by (simp add: spawned_def)
qed

lemma stats_after_eq: "stats_after net hops n = stats_run net 1 n (map initStat hops)"
  by (simp add: stats_after_def cycle_loop_hopStats)

lemma stats_run_single: "stats_run net c c stats = run_cycle net c stats"
  by (simp add: stats_run_step [of c c] stats_run_done)

lemma progress_events_cycle_loop:
  "progress_events (trace (cycle_loop net True iv C c st)) =
     progress_events (trace st) @
     map (\<lambda>n. \<lparr>ev_type = ''cycle_update'', ev_cycle = n, ev_totalCycles = C,
                ev_hops = map snapshot_of (stats_run net c n (hopStats st))\<rparr>) [c..C]"
proof (induction net "True" iv C c st rule: cycle_loop.induct)
  case (1 net iv C c st)
  show ?case
  proof (cases "c \<le> C")
    case True
    have u: "[c..C] = c # [c + 1..C]" using True by (simp add: upto_rec1)
    have m: "map (\<lambda>n. \<lparr>ev_type = ''cycle_update'', ev_cycle = n, ev_totalCycles = C,
                ev_hops = map snapshot_of (stats_run net (c + 1) n (run_cycle net c (hopStats st)))\<rparr>) [c + 1..C]
          = map (\<lambda>n. \<lparr>ev_type = ''cycle_update'', ev_cycle = n, ev_totalCycles = C,
                ev_hops = map snapshot_of (stats_run net c n (hopStats st))\<rparr>) [c + 1..C]"
      by (rule map_cong) (simp_all add: stats_run_step [of c])
    show ?thesis
      using True 1
      by (subst cycle_loop.simps) (simp add: Let_def u m stats_run_single)
  next
    case False
    then show ?thesis by (subst cycle_loop.simps) simp
  qed
qed

lemma progress_events_no_callback:
  "progress_events (trace (cycle_loop net False iv C c st)) = progress_events (trace st)"
proof (induction net "False" iv C c st rule: cycle_loop.induct)
  case (1 net iv C c st)
  show ?case
  proof (cases "c \<le> C")
    case True
    then show ?thesis using 1 by (subst cycle_loop.simps) (simp add: Let_def)
  next
    case False
    then show ?thesis by (subst cycle_loop.simps) simp
  qed
qed

lemma mem_spawned:
  "Spawn c' i a \<in> set (spawned c stats) \<longleftrightarrow>
     c' = c \<and> i < length stats \<and> \<not> isDead (stats ! i) \<and> a = ip (stats ! i)"
  by (auto simp add: spawned_def in_set_enumerate_eq split: if_splits)

lemma isDead_run_cycle:
  "i < length stats \<Longrightarrow> isDead (run_cycle net c stats ! i) = isDead (stats ! i)"
  by (simp add: nth_run_cycle)

lemma spawn_only_live:
  "Spawn c' i a \<in> set (trace (cycle_loop net cb iv C c st)) \<Longrightarrow>
   Spawn c' i a \<in> set (trace st) \<or> (i < length (hopStats st) \<and> \<not> isDead (hopStats st ! i))"
proof (induction net cb iv C c st rule: cycle_loop.induct)
  case (1 net cb iv C c st)
  show ?case
  proof (cases "c \<le> C")
    case True
    let ?st' = "\<lparr>hopStats = run_cycle net c (hopStats st),
                 trace = (let t1 = trace st @ spawned c (hopStats st);
                              t2 = (if cb then t1 @ [Progress \<lparr>ev_type = ''cycle_update'', ev_cycle = c,
                                     ev_totalCycles = C,
                                     ev_hops = map snapshot_of (run_cycle net c (hopStats st))\<rparr>] else t1)
                          in if c < C then t2 @ [Sleep iv] else t2)\<rparr>"
    have eq: "cycle_loop net cb iv C c st = cycle_loop net cb iv C (c + 1) ?st'"
      using True by (subst cycle_loop.simps) (simp add: Let_def)
    from "1.prems" have "Spawn c' i a \<in> set (trace (cycle_loop net cb iv C (c + 1) ?st'))"
      by (simp only: eq)
    with "1.IH" [OF True refl refl refl refl] True
    have "Spawn c' i a \<in> set (trace ?st') \<or> (i < length (hopStats ?st') \<and> \<not> isDead (hopStats ?st' ! i))"
      by (simp add: Let_def)
    then show ?thesis
      by (auto simp add: Let_def mem_spawned length_run_cycle isDead_run_cycle split: if_splits)
  next
    case False
    with "1.prems" show ?thesis by (subst (asm) cycle_loop.simps) simp
  qed
qed

text \<open>
  The equations of the matcher are used for evaluation only where the input is \<open>[]\<close> or
  starts with a character, so that no continuation is unfolded before it is applied.
\<close>

lemmas bt_Nil = bt.simps [where s = "[]"]

lemmas bt_Cons = bt.simps [where s = "c # cs" for c cs]

lemmas rx_step = bt_Nil bt_Cons js_def WS_def ws_ranges_def DIGIT_def DOT_def HEX_def COLON_def PLUS_def OPT_def
  chr_i_def matched_def

lemmas rx_eval = timeMatch_def timeMatch_at_def TIME_DELIM_def TIME_NUM_def TIME_TAIL_def
  rx_step parseFloat_def dec_value_def is_digit_def

lemma runMtrCycles_fst:
  "fst (runMtrCycles net hops C cb iv) = map final_of (stats_after net hops C)"
  by (simp add: runMtrCycles_def Let_def stats_after_def cycle_loop_hopStats)

lemma nth_stats_after:
  "i < length hops \<Longrightarrow>
   stats_after net hops n ! i = stat_steps net i [1..n] (initStat (hops ! i))"
  by (simp add: stats_after_eq nth_stats_run)

lemma length_stats_after: "length (stats_after net hops n) = length hops"
  by (simp add: stats_after_eq length_stats_run)

lemma toFixed1_int: "toFixed1 (of_int k) = of_int k"
proof -
  have "\<lfloor>10 * (of_int k :: real) + 1 / 2\<rfloor> = 10 * k" by linarith
  moreover have "\<lfloor>10 * (- of_int k :: real) + 1 / 2\<rfloor> = - 10 * k" by linarith
  ultimately show ?thesis by (simp add: toFixed1_def)
qed

lemma toFixed1_0 [simp]: "toFixed1 0 = 0"
  using toFixed1_int [of 0] by simp




lemma upto_1_2: "[1..2] = [1, 2 :: int]"
  by (simp add: upto_rec1)

lemma upto_1_3: "[1..3] = [1, 2, 3 :: int]"
  by (simp add: upto_rec1)

lemma upto_1_1: "[1..1] = [1 :: int]"
  by (simp add: upto_rec1)


lemma   s: "samples net_thirds 0 3 = [1, 2, 2]"
    by (simp add: samples_def net_thirds_def net_of_lines_def executePing_def rx_eval
      upto_1_3 List.map_filter_simps)

lemma list_of_two: "length xs = 2 \<Longrightarrow> xs = [xs ! 0, xs ! 1]"
  by (cases xs; cases "tl xs") auto




text \<open>
  \<open>stats_after net hops n\<close> is what the statistics are when \<open>n\<close> cycles have completed: a
  run of \<open>C \<ge> n\<close> cycles passes through it.
\<close>

lemma run_through:
  assumes "0 \<le> n" and "n \<le> C"
  shows "\<exists>tr. cycle_loop net cb iv C 1 \<lparr>hopStats = map initStat hops, trace = []\<rparr>
            = cycle_loop net cb iv C (n + 1) \<lparr>hopStats = stats_after net hops n, trace = tr\<rparr>"
  using assms
proof (induction n rule: int_ge_induct)
  case base
  have "stats_after net hops 0 = map initStat hops"
    by (simp add: stats_after_eq stats_run_done)
  then show ?case by auto
next
  case (step n)
  then obtain tr where tr: "cycle_loop net cb iv C 1 \<lparr>hopStats = map initStat hops, trace = []\<rparr>
            = cycle_loop net cb iv C (n + 1) \<lparr>hopStats = stats_after net hops n, trace = tr\<rparr>"
    by auto
  have "run_cycle net (n + 1) (stats_after net hops n) = stats_after net hops (n + 1)"
  proof (rule nth_equalityI)
    show "length (run_cycle net (n + 1) (stats_after net hops n)) = length (stats_after net hops (n + 1))"
      by (simp add: length_run_cycle length_stats_after)
  next
    fix i assume "i < length (run_cycle net (n + 1) (stats_after net hops n))"
    then have i: "i < length hops" by (simp add: length_run_cycle length_stats_after)
    have "[1..n + 1] = [1..n] @ [n + 1]" using step.hyps by (simp add: upto_rec2)
    then show "run_cycle net (n + 1) (stats_after net hops n) ! i = stats_after net hops (n + 1) ! i"
      using i by (simp add: nth_run_cycle length_stats_after nth_stats_after stat_steps_snoc)
  qed
  then show ?case
    using step.prems tr by (subst (asm) cycle_loop.simps [of _ _ _ _ "n + 1"]) (auto simp add: Let_def)
qed


lemma initStat_fields [simp]:
  "hop (initStat h) = hop h" "ip (initStat h) = ip h" "host (initStat h) = host h"
  "sent (initStat h) = 0"
  by (simp_all add: initStat_def hop_rec.extend_def hop_stat.fields_def)

lemma dead_inv_init: "isDead (initStat h) \<Longrightarrow> dead_inv (initStat h)"
  by (simp add: dead_inv_def initStat_def hop_rec.extend_def hop_stat.fields_def)

lemma runMtrCycles_progress:
  "progress_events (snd (runMtrCycles net hops C cb iv)) =
     (if cb then map (\<lambda>n. \<lparr>ev_type = ''cycle_update'', ev_cycle = n, ev_totalCycles = C,
                              ev_hops = map snapshot_of (stats_after net hops n)\<rparr>) [1..C]
      else [])"
  by (simp add: runMtrCycles_def Let_def progress_events_cycle_loop progress_events_no_callback
      stats_after_eq)

lemma toFixed1_100 [simp]: "toFixed1 100 = 100"
  using toFixed1_int [of 100] by simp

lemma dead_stats_after:
  assumes "i < length hops" and "isDead (initStat (hops ! i))" and "1 \<le> n"
  shows "snapshot_of (stats_after net hops n ! i) =
           \<lparr>row_hop = hop (hops ! i), row_ip = ip (hops ! i), row_loss = 100, row_avg = 0,
            row_best = 0, row_worst = 0, row_stdev = 0, row_sent = nat n\<rparr>"
    and "final_of (stats_after net hops n ! i) =
           \<lparr>fin_host = truthy_or (host (hops ! i)) (ip (hops ! i)), fin_ip = ip (hops ! i),
            fin_loss = 100, fin_avg = 0, fin_best = 0, fin_worst = 0, fin_stdev = 0\<rparr>"
proof -
  define s where "s = stats_after net hops n ! i"
  have s: "s = stat_steps net i [1..n] (initStat (hops ! i))"
    using assms(1) by (simp add: s_def nth_stats_after)
  have ne: "[1..n] \<noteq> []" using assms(3) by (simp add: upto_rec1)
  have d: "dead_inv s" unfolding s by (intro dead_inv_stat_steps dead_inv_init assms(2))
  have l: "loss s = 100" unfolding s by (intro dead_loss_stat_steps dead_inv_init assms(2) ne)
  have f: "hop s = hop (hops ! i)" "ip s = ip (hops ! i)" "host s = host (hops ! i)" "sent s = nat n"
    by (simp_all add: s)
  show "snapshot_of (stats_after net hops n ! i) =
           \<lparr>row_hop = hop (hops ! i), row_ip = ip (hops ! i), row_loss = 100, row_avg = 0,
            row_best = 0, row_worst = 0, row_stdev = 0, row_sent = nat n\<rparr>"
    unfolding s_def [symmetric] using d l f by (simp add: snapshot_of_def dead_inv_def shown_best_def)
  show "final_of (stats_after net hops n ! i) =
           \<lparr>fin_host = truthy_or (host (hops ! i)) (ip (hops ! i)), fin_ip = ip (hops ! i),
            fin_loss = 100, fin_avg = 0, fin_best = 0, fin_worst = 0, fin_stdev = 0\<rparr>"
    unfolding s_def [symmetric] using d l f by (simp add: final_of_def dead_inv_def shown_best_def)
qed

text \<open>
  Claim C3, as amended. For a slot without a usable address, in every run: no ping is ever
  spawned for it; every snapshot shows it with loss 100, average, best, worst and standard
  deviation 0, and with \<open>sent\<close> equal to the number of the cycle (the counter is incremented
  in every cycle all the same); and the final result shows loss 100 and the other four at 0
  whenever at least one cycle ran.
\<close>

theorem dead_slot_statistics:
  assumes "i < length hops" and "isDead (initStat (hops ! i))"
  shows "(\<forall>c a. Spawn c i a \<notin> set (snd (runMtrCycles net hops C cb iv)))
       \<and> (\<forall>e \<in> set (progress_events (snd (runMtrCycles net hops C cb iv))).
            ev_hops e ! i = \<lparr>row_hop = hop (hops ! i), row_ip = ip (hops ! i), row_loss = 100,
                              row_avg = 0, row_best = 0, row_worst = 0, row_stdev = 0,
                              row_sent = nat (ev_cycle e)\<rparr>)
       \<and> (1 \<le> C \<longrightarrow> fst (runMtrCycles net hops C cb iv) ! i =
             \<lparr>fin_host = truthy_or (host (hops ! i)) (ip (hops ! i)), fin_ip = ip (hops ! i),
              fin_loss = 100, fin_avg = 0, fin_best = 0, fin_worst = 0, fin_stdev = 0\<rparr>)"
proof (intro conjI allI ballI impI)
  fix c a
  show "Spawn c i a \<notin> set (snd (runMtrCycles net hops C cb iv))"
  proof
    assume "Spawn c i a \<in> set (snd (runMtrCycles net hops C cb iv))"
    then have "Spawn c i a \<in> set (trace (cycle_loop net cb iv C 1
                  \<lparr>hopStats = map initStat hops, trace = []\<rparr>))"
      by (simp add: runMtrCycles_def Let_def)
    from spawn_only_live [OF this] assms show False by simp
  qed
next
  fix e assume "e \<in> set (progress_events (snd (runMtrCycles net hops C cb iv)))"
  then obtain n where n: "1 \<le> n" and e: "e = \<lparr>ev_type = ''cycle_update'', ev_cycle = n,
        ev_totalCycles = C, ev_hops = map snapshot_of (stats_after net hops n)\<rparr>"
    by (auto simp add: runMtrCycles_progress split: if_splits)
  show "ev_hops e ! i = \<lparr>row_hop = hop (hops ! i), row_ip = ip (hops ! i), row_loss = 100,
                              row_avg = 0, row_best = 0, row_worst = 0, row_stdev = 0,
                              row_sent = nat (ev_cycle e)\<rparr>"
    using assms(1) dead_stats_after(1) [OF assms n, of net] by (simp add: e length_stats_after)
next
  assume "1 \<le> C"
  then show "fst (runMtrCycles net hops C cb iv) ! i =
             \<lparr>fin_host = truthy_or (host (hops ! i)) (ip (hops ! i)), fin_ip = ip (hops ! i),
              fin_loss = 100, fin_avg = 0, fin_best = 0, fin_worst = 0, fin_stdev = 0\<rparr>"
    using assms(1) dead_stats_after(2) [OF assms, of C net]
    by (simp add: runMtrCycles_fst length_stats_after)
qed

text \<open>
  Claim C5. With a progress callback and \<open>C \<ge> 1\<close>, the run calls it exactly \<open>C\<close> times;
  the cycle numbers of the snapshots are \<open>1, \<dots>, C\<close> in this order; every snapshot names
  \<open>C\<close> as the total, has one row for each hop, and snapshot \<open>N\<close> shows \<open>sent = N\<close> in
  every row.
\<close>

theorem progress_protocol:
  assumes "1 \<le> C"
  shows "let evs = progress_events (snd (runMtrCycles net hops C True iv))
         in length evs = nat C \<and> map ev_cycle evs = [1..C] \<and> sorted_wrt (<) (map ev_cycle evs)
          \<and> (\<forall>e \<in> set evs. ev_totalCycles e = C \<and> length (ev_hops e) = length hops
                \<and> (\<forall>row \<in> set (ev_hops e). row_sent row = nat (ev_cycle e)))"
proof -
  define evs where "evs = progress_events (snd (runMtrCycles net hops C True iv))"
  have evs: "evs = map (\<lambda>n. \<lparr>ev_type = ''cycle_update'', ev_cycle = n, ev_totalCycles = C,
                              ev_hops = map snapshot_of (stats_after net hops n)\<rparr>) [1..C]"
    by (simp add: evs_def runMtrCycles_progress)
  have c: "map ev_cycle evs = [1..C]"
    by (simp add: evs comp_def)
  have l: "length evs = nat C" by (simp add: evs)
  have s: "sorted_wrt (<) (map ev_cycle evs)"
    unfolding c by (simp add: sorted_wrt_upto)
  have r: "\<forall>e \<in> set evs. ev_totalCycles e = C \<and> length (ev_hops e) = length hops
                \<and> (\<forall>row \<in> set (ev_hops e). row_sent row = nat (ev_cycle e))"
  proof (intro ballI conjI)
    fix e assume "e \<in> set evs"
    then obtain n where e: "e = \<lparr>ev_type = ''cycle_update'', ev_cycle = n,
        ev_totalCycles = C, ev_hops = map snapshot_of (stats_after net hops n)\<rparr>"
      by (auto simp add: evs)
    show "ev_totalCycles e = C" by (simp add: e)
    show "length (ev_hops e) = length hops" by (simp add: e length_stats_after)
    fix row assume "row \<in> set (ev_hops e)"
    then obtain i where i: "i < length hops" and row: "row = snapshot_of (stats_after net hops n ! i)"
      by (auto simp add: e in_set_conv_nth length_stats_after)
    show "row_sent row = nat (ev_cycle e)"
      using i by (simp add: row e snapshot_of_def nth_stats_after)
  qed
  show ?thesis
    unfolding Let_def evs_def [symmetric] using l c s r by simp
qed

text \<open>
  Claim C10. With a cycle count of 0 or less nothing happens to the outside (no ping, no
  progress call, no sleep), and the result has one row for each hop, in the order of the
  hops, with loss, average, best, worst and standard deviation all 0.
\<close>

theorem no_cycles_result:
  assumes "C \<le> 0"
  shows "runMtrCycles net hops C cb iv =
           (map (\<lambda>h. \<lparr>fin_host = truthy_or (host h) (ip h), fin_ip = ip h, fin_loss = 0,
                       fin_avg = 0, fin_best = 0, fin_worst = 0, fin_stdev = 0\<rparr>) hops, [])"
proof -
  have "cycle_loop net cb iv C 1 \<lparr>hopStats = map initStat hops, trace = []\<rparr>
          = \<lparr>hopStats = map initStat hops, trace = []\<rparr>"
    using assms by (subst cycle_loop.simps) simp
  moreover have "final_of (initStat h) = \<lparr>fin_host = truthy_or (host h) (ip h), fin_ip = ip h,
       fin_loss = 0, fin_avg = 0, fin_best = 0, fin_worst = 0, fin_stdev = 0\<rparr>" for h
    by (simp add: final_of_def initStat_def hop_rec.extend_def hop_stat.fields_def shown_best_def)
  ultimately show ?thesis
    by (simp add: runMtrCycles_def Let_def comp_def)
qed

lemma isDead_init_live [simp]: "\<not> isDead (initStat (live_hop k ''10.0.0.1''))"
  "\<not> isDead (initStat (live_hop k ''10.0.0.2''))"
  by (simp_all add: live_hop_def initStat_def hop_rec.extend_def hop_stat.fields_def falsy_def js_def)

lemma isDead_init_dead [simp]: "isDead (initStat (dead_hop k))"
  by (simp add: dead_hop_def initStat_def hop_rec.extend_def hop_stat.fields_def)


text \<open>A dead slot beside a live hop, two cycles.\<close>

theorem dead_slot_statistics_witness:
  "isDead (initStat (dead_hop 1))
   \<and> map ev_hops (progress_events (snd (runMtrCycles net_scenario [dead_hop 1, live_hop 2 ''10.0.0.2''] 2 True 1000)))
       \<noteq> []
   \<and> map (\<lambda>e. ev_hops e ! 0)
        (progress_events (snd (runMtrCycles net_scenario [dead_hop 1, live_hop 2 ''10.0.0.2''] 2 True 1000)))
      = [\<lparr>row_hop = 1, row_ip = Some (js ''*''), row_loss = 100, row_avg = 0, row_best = 0,
          row_worst = 0, row_stdev = 0, row_sent = 1\<rparr>,
         \<lparr>row_hop = 1, row_ip = Some (js ''*''), row_loss = 100, row_avg = 0, row_best = 0,
          row_worst = 0, row_stdev = 0, row_sent = 2\<rparr>]
   \<and> fin_loss (fst (runMtrCycles net_scenario [dead_hop 1, live_hop 2 ''10.0.0.2''] 2 True 1000) ! 0) = 100"
proof -
  have h: "0 < length [dead_hop 1, live_hop 2 ''10.0.0.2'']"
    "isDead (initStat ([dead_hop 1, live_hop 2 ''10.0.0.2''] ! 0))"
    by simp_all
  have f: "hop (dead_hop k) = k" "ip (dead_hop k) = Some (js ''*'')" for k
    by (simp_all add: dead_hop_def)
  show ?thesis
    using dead_slot_statistics [OF h, of net_scenario 2 True 1000]
    by (simp add: runMtrCycles_progress upto_1_2 f)
qed

text \<open>
  Claim C3 as stated fails twice: after one cycle the dead slot's \<open>sent\<close> counter is 1, and
  with no cycle at all its final loss is 0, not 100.
\<close>

theorem dead_slot_counterexample:
  "row_sent (ev_hops (progress_events (snd (runMtrCycles net_scenario [dead_hop 1] 1 True 1000)) ! 0) ! 0) = 1
   \<and> fin_loss (fst (runMtrCycles net_scenario [dead_hop 1] 0 True 1000) ! 0) = 0
   \<and> fin_loss (fst (runMtrCycles net_scenario [dead_hop 1] 0 True 1000) ! 0) \<noteq> 100"
proof -
  have a: "row_sent (ev_hops (progress_events (snd (runMtrCycles net_scenario [dead_hop 1] 1 True 1000)) ! 0) ! 0) = 1"
    by (simp add: runMtrCycles_progress upto_1_1 length_stats_after nth_stats_after snapshot_of_def)
  have "[1..0] = ([] :: int list)" by simp
  then have b: "fin_loss (fst (runMtrCycles net_scenario [dead_hop 1] 0 True 1000) ! 0) = 0"
    by (simp add: runMtrCycles_fst length_stats_after nth_stats_after stat_steps_def final_of_def
        initStat_def hop_rec.extend_def hop_stat.fields_def)
  show ?thesis using a b by simp
qed

text \<open>Two hops, two cycles: the snapshots are numbered 1 and 2.\<close>

theorem progress_protocol_witness:
  "(1::int) \<le> 2
   \<and> map ev_cycle (progress_events (snd (runMtrCycles net_scenario hops_scenario 2 True 1000))) = [1, 2]
   \<and> map (\<lambda>e. map row_sent (ev_hops e))
        (progress_events (snd (runMtrCycles net_scenario hops_scenario 2 True 1000))) = [[1, 1], [2, 2]]"
proof -
  have h: "(1::int) \<le> 2" by simp
  have e: "map (\<lambda>e. length (ev_hops e))
        (progress_events (snd (runMtrCycles net_scenario hops_scenario 2 True 1000))) = [2, 2]"
    by (simp add: runMtrCycles_progress upto_1_2 length_stats_after hops_scenario_def)
  obtain e1 e2 where ev: "progress_events (snd (runMtrCycles net_scenario hops_scenario 2 True 1000)) = [e1, e2]"
    by (simp add: runMtrCycles_progress upto_1_2)
  from e ev obtain a b c d where rows: "ev_hops e1 = [a, b]" "ev_hops e2 = [c, d]"
    using list_of_two [of "ev_hops e1"] list_of_two [of "ev_hops e2"] by auto
  show ?thesis
    using progress_protocol [OF h, of net_scenario hops_scenario 1000]
    by (simp add: Let_def ev rows upto_1_2)
qed

text \<open>No cycle, a dead slot and a live hop: both rows show loss 0.\<close>

theorem no_cycles_result_witness:
  "(0::int) \<le> 0
   \<and> runMtrCycles net_scenario [dead_hop 1, live_hop 2 ''10.0.0.2''] 0 True 1000 =
       ([\<lparr>fin_host = Some (js ''*''), fin_ip = Some (js ''*''), fin_loss = 0, fin_avg = 0,
          fin_best = 0, fin_worst = 0, fin_stdev = 0\<rparr>,
         \<lparr>fin_host = Some (js ''10.0.0.2''), fin_ip = Some (js ''10.0.0.2''), fin_loss = 0,
          fin_avg = 0, fin_best = 0, fin_worst = 0, fin_stdev = 0\<rparr>], [])"
proof -
  have h: "(0::int) \<le> 0" by simp
  show ?thesis
    using no_cycles_result [OF h, of net_scenario "[dead_hop 1, live_hop 2 ''10.0.0.2'']" True 1000]
    by (simp add: dead_hop_def live_hop_def truthy_or_def falsy_def js_def)
qed

text \<open>
  Claim C6. If the discovered list is empty or its last hop is not the target, the run
  appends exactly one hop, whose index is the last index plus 1 (1 on the empty list) and
  whose address is the target; otherwise the list is left as it is. In both cases the list
  handed to the cycles is not empty and its last entry is the target.
\<close>

theorem append_target_last:
  "(hops = [] \<or> ip (last hops) \<noteq> Some targetIP \<longrightarrow>
      append_target hops targetIP =
        hops @ [\<lparr>hop = (if hops = [] then 1 else hop (last hops) + 1), ip = Some targetIP,
                  host = None, reached = None, rtt1 = Some (js ''0 ms'')\<rparr>])
   \<and> (hops \<noteq> [] \<and> ip (last hops) = Some targetIP \<longrightarrow> append_target hops targetIP = hops)
   \<and> append_target hops targetIP \<noteq> []
   \<and> ip (last (append_target hops targetIP)) = Some targetIP
   \<and> mtr_phase targetIP route net mtrDuration =
       runMtrCycles net (append_target (runTraceroute targetIP route) targetIP) mtrDuration True 1000"
  by (auto simp add: append_target_def mtr_phase_def)

text \<open>The three cases: an empty list, a list that ends elsewhere, a list that ends at the target.\<close>

theorem append_target_last_witness:
  "append_target [] (js ''8.8.8.8'') =
     [\<lparr>hop = 1, ip = Some (js ''8.8.8.8''), host = None, reached = None, rtt1 = Some (js ''0 ms'')\<rparr>]
   \<and> append_target [live_hop 4 ''10.0.0.1''] (js ''8.8.8.8'') =
     [live_hop 4 ''10.0.0.1'',
      \<lparr>hop = 5, ip = Some (js ''8.8.8.8''), host = None, reached = None, rtt1 = Some (js ''0 ms'')\<rparr>]
   \<and> append_target [live_hop 4 ''8.8.8.8''] (js ''8.8.8.8'') = [live_hop 4 ''8.8.8.8'']"
proof -
  have a: "ip (live_hop 4 ''10.0.0.1'') \<noteq> Some (js ''8.8.8.8'')"
    by (simp add: live_hop_def js_def)
  have b: "ip (live_hop 4 ''8.8.8.8'') = Some (js ''8.8.8.8'')" "hop (live_hop 4 ''10.0.0.1'') = 4"
    by (simp_all add: live_hop_def)
  show ?thesis
    using append_target_last [of "[]" "js ''8.8.8.8''"]
      append_target_last [of "[live_hop 4 ''10.0.0.1'']" "js ''8.8.8.8''"]
      append_target_last [of "[live_hop 4 ''8.8.8.8'']" "js ''8.8.8.8''"] a b
    by simp
qed

lemma hop_probeHop [simp]: "hop (probeHop ttl targetIP p) = ttl"
  by (simp add: probeHop_def split: proc_outcome.splits prod.splits)

lemma probeHop_SpawnError:
  "probeHop ttl targetIP SpawnError =
     \<lparr>hop = ttl, ip = Some (js ''*''), host = None, reached = Some False, rtt1 = None\<rparr>"
  by (simp add: probeHop_def)

lemma fst_collect:
  "fst (collect targetIP results acc) =
     fst acc @ filter (\<lambda>res. ip res \<noteq> Some (js ''*'')) results"
  by (induction targetIP results acc rule: collect.induct) simp_all

lemma collected_mono: "collected targetIP route i hops \<Longrightarrow> i \<le> j \<Longrightarrow> collected targetIP route j hops"
  by (auto simp add: collected_def list_all_iff)

lemma map_hop_filter_probes:
  "map hop (filter P (map (\<lambda>ttl. probeHop ttl targetIP (route ttl)) ttls))
     = filter (\<lambda>ttl. P (probeHop ttl targetIP (route ttl))) ttls"
  by (induction ttls) simp_all

lemma collected_batch:
  assumes "collected targetIP route i (fst acc)" and "i \<le> j"
  shows "collected targetIP route j
           (fst (collect targetIP (map (\<lambda>ttl. probeHop ttl targetIP (route ttl)) [i..<j]) acc))"
proof -
  let ?new = "filter (\<lambda>res. ip res \<noteq> Some (js ''*'')) (map (\<lambda>ttl. probeHop ttl targetIP (route ttl)) [i..<j])"
  have s: "sorted_wrt (<) (map hop ?new)"
    by (simp add: map_hop_filter_probes sorted_wrt_filter)
  have n: "list_all (\<lambda>h. i \<le> hop h \<and> hop h < j \<and> ip h \<noteq> Some (js ''*'')
                     \<and> probeHop (hop h) targetIP (route (hop h)) = h) ?new"
    by (auto simp add: list_all_iff)
  have o: "sorted_wrt (<) (map hop (fst acc))"
    and p: "list_all (\<lambda>h. hop h < i \<and> ip h \<noteq> Some (js ''*'')
                     \<and> probeHop (hop h) targetIP (route (hop h)) = h) (fst acc)"
    using assms by (simp_all add: collected_def)
  have lt: "x < y" if "x \<in> set (map hop (fst acc))" and "y \<in> set (map hop ?new)" for x y
  proof -
    from that(1) p have "x < i" by (auto simp add: list_all_iff)
    moreover from that(2) n have "i \<le> y" by (auto simp add: list_all_iff)
    ultimately show ?thesis by simp
  qed
  have "sorted_wrt (<) (map hop (fst acc) @ map hop ?new)"
    unfolding sorted_wrt_append using s o lt by blast
  then have "sorted_wrt (<) (map hop (fst acc @ ?new))" by simp
  moreover have "list_all (\<lambda>h. hop h < j \<and> ip h \<noteq> Some (js ''*'')
                     \<and> probeHop (hop h) targetIP (route (hop h)) = h) (fst acc @ ?new)"
    using n p assms(2) by (auto simp add: list_all_iff)
  ultimately show ?thesis
    by (simp add: fst_collect collected_def)
qed

lemma collected_batch_loop:
  "collected targetIP route i (fst acc) \<Longrightarrow>
   \<exists>j. collected targetIP route j (fst (batch_loop targetIP route i acc))"
proof (induction targetIP route i acc rule: batch_loop.induct)
  case (1 targetIP route i acc)
  show ?case
  proof (cases "i \<le> MAX_HOPS \<and> \<not> snd acc")
    case True
    let ?e = "min (i + BATCH_SIZE - 1) MAX_HOPS"
    let ?acc = "collect targetIP (map (\<lambda>ttl. probeHop ttl targetIP (route ttl)) [i..<Suc ?e]) acc"
    have "i \<le> Suc ?e"
      using True by (auto simp add: MAX_HOPS_def BATCH_SIZE_def)
    with "1.prems" have "collected targetIP route (Suc ?e) (fst ?acc)"
      by (rule collected_batch)
    then have "collected targetIP route (i + BATCH_SIZE) (fst ?acc)"
      by (rule collected_mono) (simp add: BATCH_SIZE_def)
    from "1.IH" [OF _ _ refl refl this] True
    have "\<exists>j. collected targetIP route j (fst (batch_loop targetIP route (i + BATCH_SIZE) ?acc))"
      by simp
    then show ?thesis
      using True by (subst batch_loop.simps) (simp add: Let_def)
  next
    case False
    then have "batch_loop targetIP route i acc = acc"
      by (subst batch_loop.simps) auto
    with "1.prems" show ?thesis by auto
  qed
qed

lemma set_truncate_at: "set (truncate_at targetIP hs) \<subseteq> set hs"
  by (induction hs) auto

lemma sorted_truncate_at:
  "sorted_wrt (<) (map hop hs) \<Longrightarrow> sorted_wrt (<) (map hop (truncate_at targetIP hs))"
  using set_truncate_at [of targetIP] by (induction hs) (auto split: if_splits)

lemma truncate_at_target_last:
  "k < length (truncate_at targetIP hs) \<Longrightarrow> ip (truncate_at targetIP hs ! k) = Some targetIP \<Longrightarrow>
   Suc k = length (truncate_at targetIP hs)"
proof (induction hs arbitrary: k)
  case Nil
  then show ?case by simp
next
  case (Cons h hs)
  then show ?case by (cases k) (auto split: if_splits)
qed

lemma truncate_at_count:
  "length (filter (\<lambda>h. ip h = Some targetIP) (truncate_at targetIP hs)) =
     (if Some targetIP \<in> ip ` set (truncate_at targetIP hs) then 1 else 0)"
  by (induction hs) auto

lemma truncate_at_last:
  "Some targetIP \<in> ip ` set (truncate_at targetIP hs) \<Longrightarrow>
   ip (last (truncate_at targetIP hs)) = Some targetIP"
  by (induction hs) (auto split: if_splits)

lemma runTraceroute_collected:
  "\<exists>j hs. collected targetIP route j hs \<and> runTraceroute targetIP route = truncate_at targetIP hs"
proof -
  have "collected targetIP route 1 (fst ([], False))" by (simp add: collected_def)
  from collected_batch_loop [OF this] obtain j where
    j: "collected targetIP route j (fst (batch_loop targetIP route 1 ([], False)))" by auto
  then have "sorted (map hop (fst (batch_loop targetIP route 1 ([], False))))"
    by (simp add: collected_def strict_sorted_imp_sorted)
  then have "runTraceroute targetIP route = truncate_at targetIP (fst (batch_loop targetIP route 1 ([], False)))"
    by (simp add: runTraceroute_def sort_key_id_if_sorted)
  with j show ?thesis by blast
qed

text \<open>
  Claim C4. The hop list discovery returns has strictly ascending hop indices, so no index
  occurs twice; a hop whose address is the destination can only be the last element; and if
  the destination occurs at all, it occurs exactly once and is the last element.
\<close>

theorem runTraceroute_hop_list:
  "sorted_wrt (<) (map hop (runTraceroute targetIP route))
   \<and> distinct (map hop (runTraceroute targetIP route))
   \<and> (\<forall>k < length (runTraceroute targetIP route).
        ip (runTraceroute targetIP route ! k) = Some targetIP \<longrightarrow>
        Suc k = length (runTraceroute targetIP route))
   \<and> (Some targetIP \<in> ip ` set (runTraceroute targetIP route) \<longrightarrow>
        ip (last (runTraceroute targetIP route)) = Some targetIP
        \<and> length (filter (\<lambda>h. ip h = Some targetIP) (runTraceroute targetIP route)) = 1)"
proof -
  obtain j hs where c: "collected targetIP route j hs"
    and r: "runTraceroute targetIP route = truncate_at targetIP hs"
    using runTraceroute_collected by blast
  have s: "sorted_wrt (<) (map hop (runTraceroute targetIP route))"
    using c by (simp add: r collected_def sorted_truncate_at)
  then have d: "distinct (map hop (runTraceroute targetIP route))"
    by (simp add: strict_sorted_iff)
  show ?thesis
    using s d by (auto simp add: r truncate_at_target_last truncate_at_count truncate_at_last)
qed

lemmas tr_eval = probeHop_def foundIp_def ipMatch_def IPV6_def IPV4_def
  strip_colon_def hasTime_def hasBytes_def found_def HAS_TIME_def HAS_BYTES_def

lemma probeHop_demo_hop:
  "probeHop ttl (js ''8.8.8.8'') (Closed 1 (js ''From 10.0.0.1 icmp_seq=1 Time to live exceeded''))
     = \<lparr>hop = ttl, ip = Some (js ''10.0.0.1''), host = None, reached = Some False, rtt1 = None\<rparr>"
  supply bt.simps [simp del]
  by (simp add: tr_eval rx_step)

lemma probeHop_demo_target:
  "probeHop ttl (js ''8.8.8.8'') (Closed 0 (js ''64 bytes from 8.8.8.8: icmp_seq=1 ttl=117 time=23ms''))
     = \<lparr>hop = ttl, ip = Some (js ''8.8.8.8''), host = None, reached = Some True, rtt1 = None\<rparr>"
  supply bt.simps [simp del]
  by (simp add: tr_eval rx_step)

lemma batch_demo:
  "fst (batch_loop (js ''8.8.8.8'') route_demo 1 ([], False)) =
     \<lparr>hop = 1, ip = Some (js ''10.0.0.1''), host = None, reached = Some False, rtt1 = None\<rparr>
     # map (\<lambda>ttl. \<lparr>hop = ttl, ip = Some (js ''8.8.8.8''), host = None, reached = Some True,
                       rtt1 = None\<rparr>) [3, 4, 5, 6, 7, 8, 9, 10]"
proof -
  have u: "[Suc 0..<10] = [1, 2, 3, 4, 5, 6, 7, 8, 9]"
    by (simp add: upt_rec)
  have n: "js ''10.0.0.1'' \<noteq> js ''*''" "js ''8.8.8.8'' \<noteq> js ''*''" "js ''10.0.0.1'' \<noteq> js ''8.8.8.8''"
    by (simp_all add: js_def)
  have "11 \<le> MAX_HOPS" by (simp add: MAX_HOPS_def)
  then have s: "batch_loop (js ''8.8.8.8'') route_demo 11 (hs, True) = (hs, True)" for hs
    by (subst batch_loop.simps) simp
  show ?thesis
    by (subst batch_loop.simps)
       (simp add: Let_def u n s BATCH_SIZE_def MAX_HOPS_def route_demo_def probeHop_demo_hop
          probeHop_demo_target probeHop_SpawnError)
qed

lemma runTraceroute_demo:
  "runTraceroute (js ''8.8.8.8'') route_demo =
     [\<lparr>hop = 1, ip = Some (js ''10.0.0.1''), host = None, reached = Some False, rtt1 = None\<rparr>,
      \<lparr>hop = 3, ip = Some (js ''8.8.8.8''), host = None, reached = Some True, rtt1 = None\<rparr>]"
proof -
  have n: "js ''10.0.0.1'' \<noteq> js ''8.8.8.8''" by (simp add: js_def)
  show ?thesis
    unfolding runTraceroute_def batch_demo by (simp add: sort_key_def n)
qed

text \<open>
  A route of three: a router answers the first probe, the second ping does not start, and
  every probe from the third on reaches the destination. Only the first of the replies of the
  destination is kept.
\<close>

theorem runTraceroute_hop_list_witness:
  "map hop (runTraceroute (js ''8.8.8.8'') route_demo) = [1, 3]
   \<and> Some (js ''8.8.8.8'') \<in> ip ` set (runTraceroute (js ''8.8.8.8'') route_demo)
   \<and> ip (last (runTraceroute (js ''8.8.8.8'') route_demo)) = Some (js ''8.8.8.8'')
   \<and> length (filter (\<lambda>h. ip h = Some (js ''8.8.8.8'')) (runTraceroute (js ''8.8.8.8'') route_demo)) = 1"
proof -
  have m: "Some (js ''8.8.8.8'') \<in> ip ` set (runTraceroute (js ''8.8.8.8'') route_demo)"
    by (simp add: runTraceroute_demo)
  have h: "map hop (runTraceroute (js ''8.8.8.8'') route_demo) = [1, 3]"
    by (simp add: runTraceroute_demo)
  show ?thesis
    using runTraceroute_hop_list [of "js ''8.8.8.8''" route_demo] m h by blast
qed



lemma lang_RepI:
  "set ps \<subseteq> lang r \<Longrightarrow> lo \<le> length ps \<Longrightarrow> length ps \<le> lo + ex \<Longrightarrow>
   concat ps \<in> lang (Rep lo ex r)"
  by auto

lemma lang_StarI:
  "set ps \<subseteq> lang r \<Longrightarrow> [] \<notin> set ps \<Longrightarrow> concat ps \<in> lang (Star r)"
  by auto

text \<open>
  The matcher is sound and complete for the language: it succeeds exactly when some text of
  the language is a prefix of the input and the continuation accepts the rest.
\<close>

lemma bt_sound:
  "bt r s k = Some x \<Longrightarrow> \<exists>p q. s = p @ q \<and> p \<in> lang r \<and> k q = Some x"
proof (induction r s k arbitrary: x rule: bt.induct)
  case (1 rs s k)
  then obtain c cs where "s = c # cs" "in_cls rs c" "k cs = Some x"
    by (auto simp add: bt.simps split: list.splits if_splits)
  then show ?case
    by (intro exI [of _ "[c]"] exI [of _ cs]) simp
next
  case (2 a b s k)
  from "2.prems" have "bt a s (\<lambda>s'. bt b s' k) = Some x" by (simp add: bt.simps)
  from "2.IH"(2) [OF this] obtain p1 q1 where
    a: "s = p1 @ q1" "p1 \<in> lang a" "bt b q1 k = Some x" by blast
  from "2.IH"(1) [OF a(3)] obtain p2 q2 where
    b: "q1 = p2 @ q2" "p2 \<in> lang b" "k q2 = Some x" by blast
  have "s = (p1 @ p2) @ q2" "p1 @ p2 \<in> lang (Seq a b)"
    using a b by auto
  with b(3) show ?case by blast
next
  case (3 a b s k)
  show ?case
  proof (cases "bt a s k")
    case None
    with "3.prems" have "bt b s k = Some x" by (simp add: bt.simps)
    from "3.IH"(2) [OF None this] show ?thesis by auto
  next
    case (Some y)
    with "3.prems" have "bt a s k = Some x" by (simp add: bt.simps)
    from "3.IH"(1) [OF this] show ?thesis by auto
  qed
next
  case (4 lo ex r s k)
  show ?case
  proof (cases "0 < lo")
    case True
    with "4.prems" have "bt r s (\<lambda>s'. bt (Rep (lo - 1) ex r) s' k) = Some x"
      by (simp add: bt.simps)
    from "4.IH"(2) [OF True this] obtain p1 q1 where
      a: "s = p1 @ q1" "p1 \<in> lang r" "bt (Rep (lo - 1) ex r) q1 k = Some x" by blast
    from "4.IH"(1) [OF True a(3)] obtain p2 q2 where
      b: "q1 = p2 @ q2" "p2 \<in> lang (Rep (lo - 1) ex r)" "k q2 = Some x" by blast
    from b(2) obtain ps where ps: "p2 = concat ps" "set ps \<subseteq> lang r" "lo - 1 \<le> length ps"
      "length ps \<le> lo - 1 + ex" by auto
    have "concat (p1 # ps) \<in> lang (Rep lo ex r)"
      by (rule lang_RepI) (use ps a(2) True in auto)
    then have "p1 @ p2 \<in> lang (Rep lo ex r)" using ps(1) by simp
    moreover have "s = (p1 @ p2) @ q2" using a b by simp
    ultimately show ?thesis using b(3) by blast
  next
    case lo: False
    have emp: "[] \<in> lang (Rep lo ex r)"
      using lang_RepI [of "[]" r lo ex] lo by simp
    show ?thesis
    proof (cases "0 < ex")
      case True
      show ?thesis
      proof (cases "bt r s (\<lambda>s'. bt (Rep 0 (ex - 1) r) s' k)")
        case None
        with "4.prems" lo True have "k s = Some x" by (simp add: bt.simps)
        with emp show ?thesis by (intro exI [of _ "[]"] exI [of _ s]) simp
      next
        case (Some y)
        with "4.prems" lo True have y: "bt r s (\<lambda>s'. bt (Rep 0 (ex - 1) r) s' k) = Some x"
          by (simp add: bt.simps)
        from "4.IH"(4) [OF lo True y] obtain p1 q1 where
          a: "s = p1 @ q1" "p1 \<in> lang r" "bt (Rep 0 (ex - 1) r) q1 k = Some x" by blast
        from "4.IH"(3) [OF lo True a(3)] obtain p2 q2 where
          b: "q1 = p2 @ q2" "p2 \<in> lang (Rep 0 (ex - 1) r)" "k q2 = Some x" by blast
        from b(2) obtain ps where ps: "p2 = concat ps" "set ps \<subseteq> lang r"
          "length ps \<le> ex - 1" by auto
        have "concat (p1 # ps) \<in> lang (Rep lo ex r)"
          by (rule lang_RepI) (use ps a(2) True lo in auto)
        then have "p1 @ p2 \<in> lang (Rep lo ex r)" using ps(1) by simp
        moreover have "s = (p1 @ p2) @ q2" using a b by simp
        ultimately show ?thesis using b(3) by blast
      qed
    next
      case False
      with "4.prems" lo have "k s = Some x" by (simp add: bt.simps)
      with emp show ?thesis by (intro exI [of _ "[]"] exI [of _ s]) simp
    qed
  qed
next
  case (5 r s k)
  have emp: "[] \<in> lang (Star r)"
    using lang_StarI [of "[]" r] by simp
  show ?case
  proof (cases "bt r s (\<lambda>s'. if length s' < length s then bt (Star r) s' k else None)")
    case None
    with "5.prems" have "k s = Some x" by (simp add: bt.simps)
    with emp show ?thesis by (intro exI [of _ "[]"] exI [of _ s]) simp
  next
    case (Some y)
    with "5.prems" have y: "bt r s (\<lambda>s'. if length s' < length s then bt (Star r) s' k else None) = Some x"
      by (simp add: bt.simps)
    from "5.IH"(2) [OF y] obtain p1 q1 where
      a: "s = p1 @ q1" "p1 \<in> lang r" "(if length q1 < length s then bt (Star r) q1 k else None) = Some x"
      by blast
    then have l: "length q1 < length s" and c: "bt (Star r) q1 k = Some x"
      by (auto split: if_splits)
    from "5.IH"(1) [OF l c] obtain p2 q2 where
      b: "q1 = p2 @ q2" "p2 \<in> lang (Star r)" "k q2 = Some x" by blast
    from b(2) obtain ps where ps: "p2 = concat ps" "set ps \<subseteq> lang r" "[] \<notin> set ps" by auto
    have ne: "p1 \<noteq> []" using a(1) l by auto
    have "concat (p1 # ps) \<in> lang (Star r)"
      by (rule lang_StarI) (use ps a(2) ne in auto)
    then have "p1 @ p2 \<in> lang (Star r)" using ps(1) by simp
    moreover have "s = (p1 @ p2) @ q2" using a b by simp
    ultimately show ?thesis using b(3) by blast
  qed
next
  case (6 s k)
  then show ?case by (simp add: bt.simps)
qed

lemma case_option_not_None:
  "(case v of None \<Rightarrow> w | Some x \<Rightarrow> Some x) \<noteq> None \<longleftrightarrow> v \<noteq> None \<or> w \<noteq> None"
  by (cases v) simp_all

lemma bt_complete_aux:
  "s = p @ q \<Longrightarrow> p \<in> lang r \<Longrightarrow> k q \<noteq> None \<Longrightarrow> bt r s k \<noteq> None"
proof (induction r s k arbitrary: p q rule: bt.induct)
  case (1 rs s k)
  then show ?case by (auto simp add: bt.simps(1))
next
  case (2 a b s k)
  from "2.prems"(2) obtain p1 p2 where p: "p = p1 @ p2" "p1 \<in> lang a" "p2 \<in> lang b" by auto
  have "bt b (p2 @ q) k \<noteq> None"
    using "2.IH"(1) [OF refl p(3) "2.prems"(3)] .
  moreover have "s = p1 @ (p2 @ q)" using "2.prems"(1) p(1) by simp
  ultimately have "bt a s (\<lambda>s'. bt b s' k) \<noteq> None"
    using "2.IH"(2) [of p1 "p2 @ q"] p(2) by blast
  then show ?case by (subst bt.simps(2))
next
  case (3 a b s k)
  from "3.prems"(2) consider "p \<in> lang a" | "p \<in> lang b" by auto
  then show ?case
  proof cases
    case 1
    from "3.IH"(1) [OF "3.prems"(1) 1 "3.prems"(3)] obtain y where "bt a s k = Some y"
      by auto
    then show ?thesis by (subst bt.simps(3)) simp
  next
    case 2
    show ?thesis
    proof (cases "bt a s k")
      case None
      from "3.IH"(2) [OF None "3.prems"(1) 2 "3.prems"(3)] None show ?thesis
        by (subst bt.simps(3)) (simp del: not_None_eq)
    next
      case (Some y)
      then show ?thesis by (subst bt.simps(3)) simp
    qed
  qed
next
  case (4 lo ex r s k)
  from "4.prems"(2) obtain ps where ps: "p = concat ps" "set ps \<subseteq> lang r" "lo \<le> length ps"
    "length ps \<le> lo + ex" by auto
  show ?case
  proof (cases "0 < lo")
    case True
    with ps(3) obtain p1 ps' where c: "ps = p1 # ps'" by (cases ps) auto
    have "concat ps' \<in> lang (Rep (lo - 1) ex r)"
      by (rule lang_RepI) (use ps c True in auto)
    from "4.IH"(1) [OF True refl this "4.prems"(3)]
    have "bt (Rep (lo - 1) ex r) (concat ps' @ q) k \<noteq> None" .
    moreover have "s = p1 @ (concat ps' @ q)" "p1 \<in> lang r"
      using "4.prems"(1) ps c by auto
    ultimately have "bt r s (\<lambda>s'. bt (Rep (lo - 1) ex r) s' k) \<noteq> None"
      using "4.IH"(2) [OF True, of p1 "concat ps' @ q"] by blast
    with True show ?thesis by (subst bt.simps(4)) (simp del: not_None_eq)
  next
    case lo: False
    show ?thesis
    proof (cases ps)
      case Nil
      with ps(1) "4.prems"(1,3) have "k s \<noteq> None" by simp
      with lo show ?thesis
        by (subst bt.simps(4)) (simp add: case_option_not_None del: not_None_eq)
    next
      case (Cons p1 ps')
      with ps(4) lo have ex: "0 < ex" by simp
      have "concat ps' \<in> lang (Rep 0 (ex - 1) r)"
        by (rule lang_RepI) (use ps Cons lo in auto)
      from "4.IH"(3) [OF lo ex refl this "4.prems"(3)]
      have "bt (Rep 0 (ex - 1) r) (concat ps' @ q) k \<noteq> None" .
      moreover have "s = p1 @ (concat ps' @ q)" "p1 \<in> lang r"
        using "4.prems"(1) ps Cons by auto
      ultimately have "bt r s (\<lambda>s'. bt (Rep 0 (ex - 1) r) s' k) \<noteq> None"
        using "4.IH"(4) [OF lo ex, of p1 "concat ps' @ q"] by blast
      with lo ex show ?thesis
        by (subst bt.simps(4)) (simp add: case_option_not_None del: not_None_eq)
    qed
  qed
next
  case (5 r s k)
  from "5.prems"(2) obtain ps where ps: "p = concat ps" "set ps \<subseteq> lang r" "[] \<notin> set ps"
    by auto
  show ?case
  proof (cases ps)
    case Nil
    with ps(1) "5.prems"(1,3) have "k s \<noteq> None" by simp
    then show ?thesis
      by (subst bt.simps(5)) (simp add: case_option_not_None del: not_None_eq)
  next
    case (Cons p1 ps')
    have s: "s = p1 @ (concat ps' @ q)" and p1: "p1 \<in> lang r" "p1 \<noteq> []"
      using "5.prems"(1) ps Cons by auto
    then have l: "length (concat ps' @ q) < length s" by simp
    have "concat ps' \<in> lang (Star r)"
      by (rule lang_StarI) (use ps Cons in auto)
    from "5.IH"(1) [OF l refl this "5.prems"(3)]
    have "bt (Star r) (concat ps' @ q) k \<noteq> None" .
    with l have "(if length (concat ps' @ q) < length s then bt (Star r) (concat ps' @ q) k else None)
        \<noteq> None" by simp
    with "5.IH"(2) [OF s p1(1)]
    have "bt r s (\<lambda>s'. if length s' < length s then bt (Star r) s' k else None) \<noteq> None" .
    then show ?thesis
      by (subst bt.simps(5)) (simp add: case_option_not_None del: not_None_eq)
  qed
next
  case (6 s k)
  then show ?case by (simp add: bt.simps(6))
qed

lemma bt_complete: "p \<in> lang r \<Longrightarrow> k q \<noteq> None \<Longrightarrow> bt r (p @ q) k \<noteq> None"
  by (rule bt_complete_aux [OF refl])

lemma search_Some:
  "search m s = Some x \<Longrightarrow>
   \<exists>pre rest. s = pre @ rest \<and> m rest = Some x
      \<and> (\<forall>pre' rest'. s = pre' @ rest' \<and> length pre' < length pre \<longrightarrow> m rest' = None)"
proof (induction s)
  case Nil
  then show ?case by (intro exI [of _ "[]"]) simp
next
  case (Cons c cs)
  show ?case
  proof (cases "m (c # cs)")
    case None
    with Cons.prems have "search m cs = Some x" by simp
    from Cons.IH [OF this] obtain pre rest where
      r: "cs = pre @ rest" "m rest = Some x"
         "\<forall>pre' rest'. cs = pre' @ rest' \<and> length pre' < length pre \<longrightarrow> m rest' = None"
      by blast
    have "\<forall>pre' rest'. c # cs = pre' @ rest' \<and> length pre' < length (c # pre) \<longrightarrow> m rest' = None"
    proof (intro allI impI)
      fix pre' rest' assume a: "c # cs = pre' @ rest' \<and> length pre' < length (c # pre)"
      show "m rest' = None"
      proof (cases pre')
        case Nil
        with a None show ?thesis by simp
      next
        case (Cons d pre'')
        with a r(3) show ?thesis by auto
      qed
    qed
    with r(1,2) show ?thesis
      by (intro exI [of _ "c # pre"] exI [of _ rest]) simp
  next
    case (Some y)
    with Cons.prems have "m (c # cs) = Some x" by simp
    then show ?thesis by (intro exI [of _ "[]"] exI [of _ "c # cs"]) simp
  qed
qed

lemma search_None: "search m s = None \<Longrightarrow> s = pre @ rest \<Longrightarrow> m rest = None"
proof (induction s arbitrary: pre)
  case Nil
  then show ?case by simp
next
  case (Cons c cs)
  show ?case
  proof (cases pre)
    case Nil
    with Cons.prems show ?thesis by (auto split: option.splits)
  next
    case (Cons d pre')
    with Cons.prems Cons.IH [of pre'] show ?thesis by (auto split: option.splits)
  qed
qed

lemma search_found: "m rest \<noteq> None \<Longrightarrow> search m (pre @ rest) \<noteq> None"
  using search_None [of m "pre @ rest" pre rest] by (cases "search m (pre @ rest)") auto

lemma lang_Seq_Cls: "lang (Seq (Cls rs) b) = {c # q | c q. in_cls rs c \<and> q \<in> lang b}"
proof (intro set_eqI iffI)
  fix x assume "x \<in> lang (Seq (Cls rs) b)"
  then obtain c q where "x = [c] @ q" "in_cls rs c" "q \<in> lang b" by auto
  then show "x \<in> {c # q | c q. in_cls rs c \<and> q \<in> lang b}" by simp
next
  fix x assume "x \<in> {c # q | c q. in_cls rs c \<and> q \<in> lang b}"
  then obtain c q where x: "x = c # q" "in_cls rs c" "q \<in> lang b" by auto
  then have "[c] \<in> lang (Cls rs)" by simp
  with x(3) have "[c] @ q \<in> lang (Seq (Cls rs) b)"
    unfolding lang.simps(2) by blast
  with x(1) show "x \<in> lang (Seq (Cls rs) b)" by simp
qed

lemma lang_Star_Cls: "lang (Star (Cls rs)) = {xs. list_all (in_cls rs) xs}"
proof (intro set_eqI iffI)
  fix xs assume "xs \<in> lang (Star (Cls rs))"
  then obtain ps where ps: "xs = concat ps" "set ps \<subseteq> {[c] | c. in_cls rs c}" by auto
  have "set ps \<subseteq> {[c] | c. in_cls rs c} \<Longrightarrow> list_all (in_cls rs) (concat ps)"
    by (induction ps) auto
  with ps show "xs \<in> {xs. list_all (in_cls rs) xs}" by simp
next
  fix xs assume "xs \<in> {xs. list_all (in_cls rs) xs}"
  then have a: "list_all (in_cls rs) xs" by simp
  have "concat (map (\<lambda>c. [c]) xs) \<in> lang (Star (Cls rs))"
    by (rule lang_StarI) (use a in \<open>auto simp add: list_all_iff\<close>)
  moreover have "concat (map (\<lambda>c. [c]) xs) = xs" by (induction xs) simp_all
  ultimately show "xs \<in> lang (Star (Cls rs))" by simp
qed

lemma lang_PLUS_DIGIT: "lang (PLUS DIGIT) = {ds. digits ds}"
  unfolding PLUS_def DIGIT_def lang_Seq_Cls lang_Star_Cls
  by (auto simp add: digits_def neq_Nil_conv is_digit_def list_all_iff)

lemma lang_OPT: "lang (OPT r) = insert [] (lang r)"
proof (intro set_eqI iffI)
  fix x assume "x \<in> lang (OPT r)"
  then obtain ps where ps: "x = concat ps" "set ps \<subseteq> lang r" "length ps \<le> 1"
    by (auto simp add: OPT_def)
  then show "x \<in> insert [] (lang r)"
    by (cases ps) auto
next
  fix x assume "x \<in> insert [] (lang r)"
  then consider "x = []" | "x \<in> lang r" by auto
  then show "x \<in> lang (OPT r)"
  proof cases
    case 1
    then show ?thesis using lang_RepI [of "[]" r 0 1] by (simp add: OPT_def)
  next
    case 2
    then show ?thesis using lang_RepI [of "[x]" r 0 1] by (simp add: OPT_def)
  qed
qed

lemma is_number_iff:
  "is_number g \<longleftrightarrow> (\<exists>ds. digits ds \<and> (g = ds \<or> (\<exists>fs. digits fs \<and> g = ds @ 46 # fs)))"
proof
  assume n: "is_number g"
  let ?ds = "takeWhile is_digit g" and ?rest = "dropWhile is_digit g"
  have g: "g = ?ds @ ?rest" by simp
  from n have ne: "?ds \<noteq> []" and r: "?rest = [] \<or> (hd ?rest = 46 \<and> digits (tl ?rest))"
    unfolding is_number_def Let_def by blast+
  have "list_all is_digit ?ds"
    unfolding list_all_iff using set_takeWhileD by metis
  with ne have d: "digits ?ds" by (simp add: digits_def)
  show "\<exists>ds. digits ds \<and> (g = ds \<or> (\<exists>fs. digits fs \<and> g = ds @ 46 # fs))"
  proof (cases "?rest = []")
    case True
    with g have "g = ?ds" by (metis append_Nil2)
    with d show ?thesis by metis
  next
    case False
    with r have "hd ?rest = 46" "digits (tl ?rest)" by blast+
    with False have "?rest = 46 # tl ?rest" by (metis list.collapse)
    with g have "g = ?ds @ 46 # tl ?rest" by metis
    with d \<open>digits (tl ?rest)\<close> show ?thesis by blast
  qed
next
  assume "\<exists>ds. digits ds \<and> (g = ds \<or> (\<exists>fs. digits fs \<and> g = ds @ 46 # fs))"
  then obtain ds where ds: "digits ds" and "g = ds \<or> (\<exists>fs. digits fs \<and> g = ds @ 46 # fs)"
    by blast
  then consider "g = ds" | fs where "digits fs" "g = ds @ 46 # fs" by blast
  then show "is_number g"
  proof cases
    case 1
    have t: "takeWhile is_digit ds = ds" and d: "dropWhile is_digit ds = []"
      using ds by (simp_all add: digits_def list_all_iff)
    show ?thesis
      unfolding is_number_def Let_def 1 t d using ds by (simp add: digits_def)
  next
    case 2
    have "takeWhile is_digit g = ds" "dropWhile is_digit g = 46 # fs"
      using ds 2 by (simp_all add: digits_def list_all_iff is_digit_def)
    with ds 2 show ?thesis
      by (simp add: is_number_def digits_def)
  qed
qed

lemma lang_TIME_NUM: "lang TIME_NUM = {g. is_number g}"
proof -
  have "lang (Seq DOT (PLUS DIGIT)) = {46 # fs | fs. digits fs}"
    unfolding DOT_def lang_Seq_Cls lang_PLUS_DIGIT by auto
  then have "lang TIME_NUM = {ds @ f | ds f. digits ds \<and> (f = [] \<or> (\<exists>fs. f = 46 # fs \<and> digits fs))}"
    unfolding TIME_NUM_def lang.simps(2) lang_PLUS_DIGIT lang_OPT by auto
  also have "\<dots> = {g. is_number g}"
    unfolding is_number_iff by auto
  finally show ?thesis .
qed

lemma lang_TIME_DELIM: "lang TIME_DELIM = {[d] | d. is_delim d}"
  by (auto simp add: TIME_DELIM_def WS_def is_delim_def is_ws_def)

lemma lang_TIME_TAIL:
  "lang TIME_TAIL = {ws @ [m, s] | ws m s. list_all is_ws ws \<and> (m = 109 \<or> m = 77) \<and> (s = 115 \<or> s = 83)}"
proof -
  have l: "lit_i (js ''ms'') = Seq (Cls [(109, 109), (77, 77)]) (Seq (Cls [(115, 115), (83, 83)]) Eps)"
    by (simp add: js_def chr_i_def)
  have "lang (lit_i (js ''ms'')) = {[m, s] | m s. (m = 109 \<or> m = 77) \<and> (s = 115 \<or> s = 83)}"
    unfolding l lang_Seq_Cls by auto
  then show ?thesis
    unfolding TIME_TAIL_def lang.simps(2) WS_def lang_Star_Cls by (auto simp add: is_ws_def [abs_def])
qed

lemma timeMatch_at_sound:
  assumes "timeMatch_at s = Some g"
  shows "\<exists>d ws m s' post. s = d # g @ ws @ m # s' # post \<and> ms_shape d g ws m s'"
proof -
  from bt_sound [OF assms [unfolded timeMatch_at_def]] obtain p1 s1 where
    a: "s = p1 @ s1" "p1 \<in> lang TIME_DELIM"
       "bt TIME_NUM s1 (\<lambda>s2. bt TIME_TAIL s2 (\<lambda>s3. Some (matched s1 s2))) = Some g"
    by blast
  from bt_sound [OF a(3)] obtain p2 s2 where
    b: "s1 = p2 @ s2" "p2 \<in> lang TIME_NUM" "bt TIME_TAIL s2 (\<lambda>s3. Some (matched s1 s2)) = Some g"
    by blast
  from bt_sound [OF b(3)] obtain p3 s3 where
    c: "s2 = p3 @ s3" "p3 \<in> lang TIME_TAIL" "Some (matched s1 s2) = Some g"
    by blast
  from c(3) b(1) have g: "g = p2" by (simp add: matched_def)
  from a(2) obtain d where d: "p1 = [d]" "is_delim d" by (auto simp add: lang_TIME_DELIM)
  from c(2) obtain ws m s' where t: "p3 = ws @ [m, s']" "list_all is_ws ws" "m = 109 \<or> m = 77"
    "s' = 115 \<or> s' = 83" by (auto simp add: lang_TIME_TAIL)
  from b(2) have n: "is_number g" by (simp add: lang_TIME_NUM g)
  have "s = d # g @ ws @ m # s' # s3" using a(1) b(1) c(1) d(1) t(1) g by simp
  moreover have "ms_shape d g ws m s'" using d(2) n t by (simp add: ms_shape_def)
  ultimately show ?thesis by blast
qed

lemma timeMatch_at_complete:
  assumes "s = d # g @ ws @ m # s' # post" and "ms_shape d g ws m s'"
  shows "timeMatch_at s \<noteq> None"
proof -
  have d: "[d] \<in> lang TIME_DELIM" and n: "g \<in> lang TIME_NUM"
    using assms(2) by (auto simp add: ms_shape_def lang_TIME_DELIM lang_TIME_NUM)
  have t: "ws @ [m, s'] \<in> lang TIME_TAIL"
    unfolding lang_TIME_TAIL using assms(2) by (simp add: ms_shape_def)
  define s2 where "s2 = (ws @ [m, s']) @ post"
  define s1 where "s1 = g @ s2"
  define k3 where "k3 = (\<lambda>s3 :: jsstring. Some (matched s1 s2))"
  define k2 where "k2 = (\<lambda>a b. bt TIME_TAIL b (\<lambda>s3 :: jsstring. Some (matched a b)))"
  define k1 where "k1 = (\<lambda>a. bt TIME_NUM a (k2 a))"
  have e3: "k3 post \<noteq> None" by (simp add: k3_def)
  have "bt TIME_TAIL ((ws @ [m, s']) @ post) k3 \<noteq> None"
    using bt_complete [of "ws @ [m, s']" TIME_TAIL k3 post] t e3 by blast
  then have e2: "k2 s1 s2 \<noteq> None"
    by (simp add: k2_def k3_def s2_def)
  have "bt TIME_NUM (g @ s2) (k2 s1) \<noteq> None"
    using bt_complete [of g TIME_NUM "k2 s1" s2] n e2 by blast
  then have e1: "k1 s1 \<noteq> None"
    by (simp add: k1_def s1_def)
  have "bt TIME_DELIM ([d] @ s1) k1 \<noteq> None"
    using bt_complete [of "[d]" TIME_DELIM k1 s1] d e1 by blast
  moreover have "s = [d] @ s1" using assms(1) by (simp add: s1_def s2_def)
  ultimately show ?thesis
    by (simp add: timeMatch_at_def k1_def k2_def)
qed

text \<open>
  Claim C7, as amended. Whether a direct probe whose process closed is alive depends on its
  output alone, never on the exit code. It is alive exactly when the output holds, somewhere,
  one of the characters \<open><\<close>, \<open>>\<close>, \<open>=\<close> or a white space, directly followed by a decimal
  number (digits, optionally a dot and more digits), optional white space and \<open>ms\<close> in
  either case; its RTT is then the number of the leftmost such place. Otherwise it is dead
  and has no RTT.
\<close>

theorem executePing_ms_value:
  "(alive (executePing (Closed code output)) \<longleftrightarrow>
      (\<exists>pre d g ws m s post. output = pre @ d # g @ ws @ m # s # post \<and> ms_shape d g ws m s))
   \<and> (alive (executePing (Closed code output)) \<longrightarrow>
        (\<exists>pre d g ws m s post. output = pre @ d # g @ ws @ m # s # post \<and> ms_shape d g ws m s
           \<and> time (executePing (Closed code output)) = Some (parseFloat g)
           \<and> (\<forall>pre' d' g' ws' m' s' post'.
                 output = pre' @ d' # g' @ ws' @ m' # s' # post' \<and> ms_shape d' g' ws' m' s'
                 \<longrightarrow> length pre \<le> length pre')))
   \<and> (\<not> alive (executePing (Closed code output)) \<longrightarrow>
        time (executePing (Closed code output)) = None)
   \<and> executePing (Closed code output) = executePing (Closed code' output)"
proof (intro conjI impI)
  show "executePing (Closed code output) = executePing (Closed code' output)"
    by (simp add: executePing_def)
  show "time (executePing (Closed code output)) = None"
    if "\<not> alive (executePing (Closed code output))"
    using that by (simp add: executePing_def split: option.splits)
  have found: "\<exists>pre d g ws m s post. output = pre @ d # g @ ws @ m # s # post \<and> ms_shape d g ws m s
           \<and> time (executePing (Closed code output)) = Some (parseFloat g)
           \<and> (\<forall>pre' d' g' ws' m' s' post'.
                 output = pre' @ d' # g' @ ws' @ m' # s' # post' \<and> ms_shape d' g' ws' m' s'
                 \<longrightarrow> length pre \<le> length pre')"
    if "alive (executePing (Closed code output))"
  proof -
    from that obtain g where g: "timeMatch output = Some g"
      by (auto simp add: executePing_def split: option.splits)
    from search_Some [OF g [unfolded timeMatch_def]] obtain pre rest where
      r: "output = pre @ rest" "timeMatch_at rest = Some g"
         "\<forall>pre' rest'. output = pre' @ rest' \<and> length pre' < length pre \<longrightarrow> timeMatch_at rest' = None"
      by blast
    from timeMatch_at_sound [OF r(2)] obtain d ws m s post where
      sh: "rest = d # g @ ws @ m # s # post" "ms_shape d g ws m s" by blast
    have first: "length pre \<le> length pre'"
      if "output = pre' @ d' # g' @ ws' @ m' # s' # post' \<and> ms_shape d' g' ws' m' s'"
      for pre' d' g' ws' m' s' post'
    proof (rule ccontr)
      assume "\<not> length pre \<le> length pre'"
      then have "length pre' < length pre" by simp
      with r(3) [rule_format, of pre' "d' # g' @ ws' @ m' # s' # post'"] that
      have "timeMatch_at (d' # g' @ ws' @ m' # s' # post') = None" by blast
      moreover have "timeMatch_at (d' # g' @ ws' @ m' # s' # post') \<noteq> None"
        using that by (intro timeMatch_at_complete [OF refl]) simp
      ultimately show False by simp
    qed
    have tm: "time (executePing (Closed code output)) = Some (parseFloat g)"
      using g by (simp add: executePing_def)
    show ?thesis
    proof (intro exI conjI)
      show "output = pre @ d # g @ ws @ m # s # post" using r(1) sh(1) by simp
      show "ms_shape d g ws m s" by (rule sh(2))
      show "time (executePing (Closed code output)) = Some (parseFloat g)" by (rule tm)
      show "\<forall>pre' d' g' ws' m' s' post'.
                 output = pre' @ d' # g' @ ws' @ m' # s' # post' \<and> ms_shape d' g' ws' m' s'
                 \<longrightarrow> length pre \<le> length pre'"
        using first by (intro allI impI)
    qed
  qed
  show "alive (executePing (Closed code output)) \<longleftrightarrow>
      (\<exists>pre d g ws m s post. output = pre @ d # g @ ws @ m # s # post \<and> ms_shape d g ws m s)"
  proof
    assume "alive (executePing (Closed code output))"
    from found [OF this] obtain pre d g ws m s post where
      "output = pre @ d # g @ ws @ m # s # post" "ms_shape d g ws m s" by blast
    then show "\<exists>pre d g ws m s post. output = pre @ d # g @ ws @ m # s # post \<and> ms_shape d g ws m s"
      by (intro exI conjI)
  next
    assume "\<exists>pre d g ws m s post. output = pre @ d # g @ ws @ m # s # post \<and> ms_shape d g ws m s"
    then obtain pre d g ws m s post where
      o: "output = pre @ d # g @ ws @ m # s # post" "ms_shape d g ws m s" by blast
    have "timeMatch_at (d # g @ ws @ m # s # post) \<noteq> None"
      using o(2) by (intro timeMatch_at_complete [OF refl])
    then have "timeMatch output \<noteq> None"
      unfolding timeMatch_def o(1) by (rule search_found)
    then show "alive (executePing (Closed code output))"
      by (auto simp add: executePing_def)
  qed
  show "\<exists>pre d g ws m s post. output = pre @ d # g @ ws @ m # s # post \<and> ms_shape d g ws m s
           \<and> time (executePing (Closed code output)) = Some (parseFloat g)
           \<and> (\<forall>pre' d' g' ws' m' s' post'.
                 output = pre' @ d' # g' @ ws' @ m' # s' # post' \<and> ms_shape d' g' ws' m' s'
                 \<longrightarrow> length pre \<le> length pre')"
    if "alive (executePing (Closed code output))"
    using found [OF that] .
qed

lemmas shape_eval = ms_shape_def is_delim_def is_ws_def ws_ranges_def is_number_def digits_def
  is_digit_def Let_def js_def

text \<open>
  The statistics line of a Linux ping that got no reply, with exit code 1: the output holds
  \<open>time 0ms\<close>, so the probe is alive with an RTT of 0, as it is with exit code 0.
\<close>

theorem executePing_ms_value_witness:
  "ms_shape 32 (js ''0'') [] 109 115
   \<and> alive (executePing (Closed 1
        (js ''1 packets transmitted, 0 received, 100% packet loss, time 0ms'')))
   \<and> time (executePing (Closed 1
        (js ''1 packets transmitted, 0 received, 100% packet loss, time 0ms''))) = Some 0
   \<and> executePing (Closed 1 (js ''1 packets transmitted, 0 received, 100% packet loss, time 0ms''))
       = executePing (Closed 0 (js ''1 packets transmitted, 0 received, 100% packet loss, time 0ms''))"
proof -
  have sh: "ms_shape 32 (js ''0'') [] 109 115"
    by (simp add: shape_eval)
  have d: "js ''1 packets transmitted, 0 received, 100% packet loss, time 0ms''
      = js ''1 packets transmitted, 0 received, 100% packet loss, time'' @ 32 # js ''0'' @ [] @ 109 # 115 # []"
    by (simp add: js_def)
  have a: "alive (executePing (Closed 1
        (js ''1 packets transmitted, 0 received, 100% packet loss, time 0ms'')))"
    using executePing_ms_value [of 1 "js ''1 packets transmitted, 0 received, 100% packet loss, time 0ms''" 0]
      sh d by blast
  have t: "time (executePing (Closed 1
        (js ''1 packets transmitted, 0 received, 100% packet loss, time 0ms''))) = Some 0"
    by (simp add: executePing_def rx_eval)
  show ?thesis
    using executePing_ms_value [of 1 "js ''1 packets transmitted, 0 received, 100% packet loss, time 0ms''" 0]
      sh a t by blast
qed

text \<open>
  Claim C7 as stated fails where a millisecond value has none of the four characters before
  it: the summary line below holds \<open>0.000 ms\<close>, and the probe is dead.
\<close>

theorem executePing_ms_value_counterexample:
  "spec_contains_ms_value (js ''rtt min/avg/max/mdev = 12.3/12.3/12.3/0.000 ms'')
   \<and> \<not> alive (executePing (Closed 0 (js ''rtt min/avg/max/mdev = 12.3/12.3/12.3/0.000 ms'')))"
proof -
  have "spec_contains_ms_value (js ''rtt min/avg/max/mdev = 12.3/12.3/12.3/0.000 ms'')"
    by (simp add: spec_contains_ms_value_def found_def TIME_NUM_def TIME_TAIL_def rx_step)
  moreover have "\<not> alive (executePing (Closed 0 (js ''rtt min/avg/max/mdev = 12.3/12.3/12.3/0.000 ms'')))"
    by (simp add: executePing_def rx_eval)
  ultimately show ?thesis by simp
qed

lemma hasTime_contains:
  assumes "line = pre @ js ''time=23ms'' @ post"
  shows "hasTime line"
proof -
  have "bt HAS_TIME (js ''time=23ms'' @ post) (\<lambda>s'. Some ()) \<noteq> None"
    by (simp add: HAS_TIME_def rx_step)
  then show ?thesis
    unfolding hasTime_def found_def assms by (rule search_found)
qed

lemma scan_lines_target:
  assumes "k < length ls"
    and "\<forall>j<k. foundIp (ls ! j) = None \<or> foundIp (ls ! j) = Some t"
    and "foundIp (ls ! k) = Some t"
    and "hasTime (ls ! k) \<or> hasBytes (ls ! k)"
  shows "scan_lines t ls = (t, True)"
  using assms
proof (induction ls arbitrary: k)
  case Nil
  then show ?case by simp
next
  case (Cons l ls)
  show ?case
  proof (cases k)
    case 0
    with Cons.prems show ?thesis by auto
  next
    case (Suc k')
    have "scan_lines t ls = (t, True)"
    proof (rule Cons.IH [of k'])
      show "k' < length ls" using Cons.prems(1) Suc by simp
      show "\<forall>j<k'. foundIp (ls ! j) = None \<or> foundIp (ls ! j) = Some t"
        using Cons.prems(2) Suc by auto
      show "foundIp (ls ! k') = Some t" using Cons.prems(3) Suc by simp
      show "hasTime (ls ! k') \<or> hasBytes (ls ! k')" using Cons.prems(4) Suc by simp
    qed
    moreover have "foundIp l = None \<or> foundIp l = Some t"
      using Cons.prems(2) Suc by auto
    ultimately show ?thesis by auto
  qed
qed

lemma hop_property_names:
  "{name. hop_property \<lparr>hop = n, ip = Some a, host = None, reached = Some b, rtt1 = None\<rparr> name \<noteq> None}
     = {''hop'', ''ip'', ''reached''}"
  by (auto simp add: hop_property_def split: if_splits)

text \<open>
  Claim C8, as amended. If the first address a line of the output yields is the destination
  and the line holds \<open>time=23ms\<close>, and every earlier line yields no address or the
  destination, the TTL probe resolves a destination reply: the address is the destination and
  \<open>reached\<close> is true. The object has the properties \<open>hop\<close>, \<open>ip\<close> and \<open>reached\<close> only:
  discovery reads no RTT from the output.
\<close>

theorem probeHop_destination_reply:
  assumes "k < length (split_lines output)"
    and "\<forall>j<k. foundIp (split_lines output ! j) = None
              \<or> foundIp (split_lines output ! j) = Some targetIP"
    and "foundIp (split_lines output ! k) = Some targetIP"
    and "split_lines output ! k = pre @ js ''time=23ms'' @ post"
  shows "probeHop ttl targetIP (Closed code output) =
           \<lparr>hop = ttl, ip = Some targetIP, host = None, reached = Some True, rtt1 = None\<rparr>
       \<and> {name. hop_property (probeHop ttl targetIP (Closed code output)) name \<noteq> None}
           = {''hop'', ''ip'', ''reached''}
       \<and> hop_property (probeHop ttl targetIP (Closed code output)) ''rttMs'' = None"
proof -
  have "hasTime (split_lines output ! k)"
    using assms(4) by (rule hasTime_contains)
  then have "scan_lines targetIP (split_lines output) = (targetIP, True)"
    using assms(1,2,3) by (intro scan_lines_target [of k]) simp_all
  then have p: "probeHop ttl targetIP (Closed code output) =
           \<lparr>hop = ttl, ip = Some targetIP, host = None, reached = Some True, rtt1 = None\<rparr>"
    by (simp add: probeHop_def)
  show ?thesis
    unfolding p hop_property_names by (simp add: hop_property_def)
qed

lemmas ip_eval = foundIp_def ipMatch_def IPV6_def IPV4_def strip_colon_def rx_step

lemma split_ping_reply_output:
  "split_lines ping_reply_output =
     [js ''PING 8.8.8.8 (8.8.8.8) 56(84) bytes of data.'',
      js ''64 bytes from 8.8.8.8: icmp_seq=1 ttl=117 time=23ms'']"
  by (simp add: ping_reply_output_def js_def)

lemma foundIp_ping_header:
  "foundIp (js ''PING 8.8.8.8 (8.8.8.8) 56(84) bytes of data.'') = Some (js ''8.8.8.8'')"
  by (simp add: ip_eval)

lemma foundIp_ping_reply:
  "foundIp (js ''64 bytes from 8.8.8.8: icmp_seq=1 ttl=117 time=23ms'') = Some (js ''8.8.8.8'')"
  by (simp add: ip_eval)

text \<open>
  The output of a Linux ping that reached the destination: the banner names the destination
  without a time, the second line is the reply.
\<close>

theorem probeHop_destination_reply_witness:
  "length (split_lines ping_reply_output) = 2
   \<and> foundIp (split_lines ping_reply_output ! 0) = Some (js ''8.8.8.8'')
   \<and> foundIp (split_lines ping_reply_output ! 1) = Some (js ''8.8.8.8'')
   \<and> probeHop 3 (js ''8.8.8.8'') (Closed 0 ping_reply_output) =
        \<lparr>hop = 3, ip = Some (js ''8.8.8.8''), host = None, reached = Some True, rtt1 = None\<rparr>"
proof -
  have k: "1 < length (split_lines ping_reply_output)"
    by (simp add: split_ping_reply_output)
  have e: "\<forall>j<1. foundIp (split_lines ping_reply_output ! j) = None
              \<or> foundIp (split_lines ping_reply_output ! j) = Some (js ''8.8.8.8'')"
    by (simp add: split_ping_reply_output foundIp_ping_header)
  have f: "foundIp (split_lines ping_reply_output ! 1) = Some (js ''8.8.8.8'')"
    by (simp add: split_ping_reply_output foundIp_ping_reply)
  have t: "split_lines ping_reply_output ! 1
      = js ''64 bytes from 8.8.8.8: icmp_seq=1 ttl=117 '' @ js ''time=23ms'' @ []"
    by (simp add: split_ping_reply_output js_def)
  show ?thesis
    using probeHop_destination_reply [OF k e f t, of 3 0] f
    by (simp add: split_ping_reply_output foundIp_ping_header)
qed

text \<open>
  Claim C8 as stated fails twice. The reply of a Windows ping gives a destination reply
  without any RTT in it. And a line that names a router before the destination is a hop
  reply of the router, although it holds the destination and \<open>time=23ms\<close>.
\<close>

theorem probeHop_destination_reply_counterexample:
  "reached (probeHop 3 (js ''8.8.8.8'')
      (Closed 0 (js ''Reply from 8.8.8.8: bytes=32 time=23ms TTL=117''))) = Some True
   \<and> hop_property (probeHop 3 (js ''8.8.8.8'')
      (Closed 0 (js ''Reply from 8.8.8.8: bytes=32 time=23ms TTL=117''))) ''rttMs'' = None
   \<and> hop_property (probeHop 3 (js ''8.8.8.8'')
      (Closed 0 (js ''Reply from 8.8.8.8: bytes=32 time=23ms TTL=117''))) ''rttMs'' \<noteq> Some (JNum 23)
   \<and> probeHop 3 (js ''8.8.8.8'')
      (Closed 0 (js ''From 10.0.0.1: redirect to 8.8.8.8 time=23ms'')) =
        \<lparr>hop = 3, ip = Some (js ''10.0.0.1''), host = None, reached = Some False, rtt1 = None\<rparr>"
proof -
  have a: "probeHop 3 (js ''8.8.8.8'') (Closed 0 (js ''Reply from 8.8.8.8: bytes=32 time=23ms TTL=117''))
      = \<lparr>hop = 3, ip = Some (js ''8.8.8.8''), host = None, reached = Some True, rtt1 = None\<rparr>"
    by (simp add: probeHop_def ip_eval hasTime_def hasBytes_def found_def HAS_TIME_def HAS_BYTES_def)
  have b: "probeHop 3 (js ''8.8.8.8'') (Closed 0 (js ''From 10.0.0.1: redirect to 8.8.8.8 time=23ms''))
      = \<lparr>hop = 3, ip = Some (js ''10.0.0.1''), host = None, reached = Some False, rtt1 = None\<rparr>"
    by (simp add: probeHop_def ip_eval)
  show ?thesis
    unfolding a b by (simp add: hop_property_def)
qed

end
